theory Spec2Isabelle
  imports Main "HOL-Library.Word" "HOL-Library.Multiset"
begin

unbundle bit_operations_syntax

section \<open>Machine integers and failures\<close>

text \<open>
  The development embeds \<^verbatim>\<open>g1EvacuationFailureObjsInHR.hpp\<close>: the segmented log
  \<^verbatim>\<open>Array<NODE_SIZE, Elem>\<close> with its \<^verbatim>\<open>Node\<close> buffers, and the address/offset
  conversions of \<^verbatim>\<open>G1EvacuationFailureObjsInHR\<close>.

  \<^verbatim>\<open>uint32_t\<close> and \<^verbatim>\<open>uint\<close> are 32-bit words, \<^verbatim>\<open>uint64_t\<close>, \<^verbatim>\<open>size_t\<close> and addresses are
  64-bit words (an LP64 target, where \<^verbatim>\<open>1l << 32\<close> is defined). Arithmetic on them wraps.

  Everything that makes the C++ stop or leave defined behaviour is a value of \<open>error\<close>:
  a failing \<^verbatim>\<open>assert\<close> (the model is the build in which assertions are compiled in), a
  dereference of \<^verbatim>\<open>NULL\<close>, an access outside an allocated array, and a read of a slot of
  a freshly allocated buffer that was never written. Allocation itself is taken to
  succeed.
\<close>

type_synonym u32 = "32 word"
type_synonym u64 = "64 word"

datatype error = AssertionFailed | NullDereference | OutOfBounds | UninitializedRead

section \<open>The cursor: one 64-bit word holding (segment index, slot index)\<close>

text \<open>Lines 71--73: the constants \<^verbatim>\<open>TMP\<close>, \<^verbatim>\<open>LOW_MASK\<close> and \<^verbatim>\<open>HIGH_MASK\<close>.\<close>

definition TMP :: u64 where
  "TMP = push_bit 32 1"

definition LOW_MASK :: u64 where
  "LOW_MASK = TMP - 1"

definition HIGH_MASK :: u64 where
  "HIGH_MASK = push_bit 32 LOW_MASK"

text \<open>Lines 81--93: \<^verbatim>\<open>low\<close>, \<^verbatim>\<open>high\<close>, \<^verbatim>\<open>elem_index\<close> (with its assertion) and
  \<^verbatim>\<open>node_index\<close>. The template parameter \<^verbatim>\<open>NODE_XXX::LENGTH\<close> is the argument \<open>LEN\<close>.\<close>

definition low :: "u64 \<Rightarrow> u64" where
  "low n = n AND LOW_MASK"

definition high :: "u64 \<Rightarrow> u64" where
  "high n = n AND HIGH_MASK"

definition elem_index :: "u32 \<Rightarrow> u64 \<Rightarrow> error + u32" where
  "elem_index LEN n =
     (if low n < ucast LEN then Inr (ucast (low n)) else Inl AssertionFailed)"

definition node_index :: "u64 \<Rightarrow> u32" where
  "node_index n = ucast (drop_bit 32 (high n))"

text \<open>Lines 95--108: the successor \<^verbatim>\<open>next\<close> of a cursor value (named \<open>next'\<close> here, since
  \<open>next\<close> is a keyword of the proof language). Its three assertions are the three
  \<open>AssertionFailed\<close> branches, in the order of the source.\<close>

definition next' :: "u32 \<Rightarrow> u64 \<Rightarrow> error + u64" where
  "next' LEN n =
     (let lo = low n; hi = high n in
      if \<not> (lo < ucast LEN \<and> ucast LEN \<le> LOW_MASK) then Inl AssertionFailed
      else if \<not> hi < HIGH_MASK then Inl AssertionFailed
      else
        (let (lo', hi') =
               (if lo + 1 = ucast LEN then (0, hi + push_bit 32 1) else (lo + 1, hi)) in
         if \<not> hi' \<le> HIGH_MASK then Inl AssertionFailed else Inr (hi' OR lo')))"

section \<open>Segments (\<^verbatim>\<open>Node\<close>) and the segmented log (\<^verbatim>\<open>Array\<close>)\<close>

text \<open>
  Lines 40--63. A \<^verbatim>\<open>Node\<close> owns a buffer of \<^verbatim>\<open>LENGTH\<close> elements obtained from
  \<^verbatim>\<open>AllocateHeap\<close>, which does not initialise it: a slot is \<open>None\<close> until it is written.
  \<^verbatim>\<open>operator[]\<close> has no bounds check, so an index outside the buffer is \<open>OutOfBounds\<close>.
  A pointer to a node is a \<open>'e Node option\<close>, \<open>None\<close> being \<^verbatim>\<open>NULL\<close>;
  \<^verbatim>\<open>free_node\<close> reads \<^verbatim>\<open>node->_oop_offsets\<close> before anything else, which on \<^verbatim>\<open>NULL\<close>
  is a null dereference.
\<close>

type_synonym 'e Node = "'e option list"

definition create_node :: "u32 \<Rightarrow> 'e Node" where
  "create_node LEN = replicate (unat LEN) None"

definition node_load :: "'e Node \<Rightarrow> nat \<Rightarrow> error + 'e" where
  "node_load node idx =
     (if idx < length node
      then (case node ! idx of None \<Rightarrow> Inl UninitializedRead | Some x \<Rightarrow> Inr x)
      else Inl OutOfBounds)"

definition node_store :: "'e Node \<Rightarrow> nat \<Rightarrow> 'e \<Rightarrow> error + 'e Node" where
  "node_store node idx x =
     (if idx < length node then Inr (node[idx := Some x]) else Inl OutOfBounds)"

definition free_node :: "'e Node option \<Rightarrow> error + unit" where
  "free_node node = (case node of None \<Rightarrow> Inl NullDereference | Some _ \<Rightarrow> Inr ())"

text \<open>
  Lines 74--78: the fields of \<^verbatim>\<open>Array\<close>. The table \<^verbatim>\<open>_nodes\<close> is a list of node pointers;
  it is allocated with \<^verbatim>\<open>_max_nodes_length\<close> entries, so an index is inside the table
  when it is below both that bound and the length of the list (the two agree in every
  state the constructor and the operations produce).
\<close>

record 'e Array =
  max_nodes_length :: u32
  cur_pos :: u64
  nodes :: "'e Node option list"
  elements_num :: u32

definition nodes_load :: "'e Array \<Rightarrow> nat \<Rightarrow> error + 'e Node option" where
  "nodes_load a i =
     (if i < unat (max_nodes_length a) \<and> i < length (nodes a)
      then Inr (nodes a ! i) else Inl OutOfBounds)"

definition nodes_store :: "'e Array \<Rightarrow> nat \<Rightarrow> 'e Node option \<Rightarrow> error + 'e Array" where
  "nodes_store a i p =
     (if i < unat (max_nodes_length a) \<and> i < length (nodes a)
      then Inr (a\<lparr>nodes := (nodes a)[i := p]\<rparr>) else Inl OutOfBounds)"

text \<open>Lines 111--119: the constructor. Lines 126--128: \<^verbatim>\<open>objs_num\<close>.\<close>

definition Array :: "u32 \<Rightarrow> 'e Array" where
  "Array max_nodes =
     \<lparr>max_nodes_length = max_nodes, cur_pos = 0,
      nodes = replicate (unat max_nodes) None, elements_num = 0\<rparr>"

definition objs_num :: "'e Array \<Rightarrow> u32" where
  "objs_num a = elements_num a"

text \<open>
  Lines 130--149: \<^verbatim>\<open>add\<close>, run by one thread at a time (every call runs to completion
  before the next starts). \<^verbatim>\<open>Atomic::cmpxchg\<close> returns the value it found and stores the
  new one when that value is the expected one. The reservation loop \<^verbatim>\<open>while (true)\<close> and
  the wait \<^verbatim>\<open>while ((node = Atomic::load(&_nodes[hi])) == NULL);\<close> may not return, so both
  are partial functions whose value \<open>None\<close> means that the call never returns.
  \<open>add_reserved\<close> is the body run once the exchange has succeeded; the element is written
  through the node pointer, that is into the node the table entry \<open>hi\<close> points to.
\<close>

definition cmpxchg :: "'e Array \<Rightarrow> u64 \<Rightarrow> u64 \<Rightarrow> u64 \<times> 'e Array" where
  "cmpxchg a compare_value exchange_value =
     (cur_pos a,
      if cur_pos a = compare_value then a\<lparr>cur_pos := exchange_value\<rparr> else a)"

partial_function (option) await_node :: "'e Array \<Rightarrow> nat \<Rightarrow> (error + 'e Node) option" where
  "await_node a hi =
     (case nodes_load a hi of
        Inl e \<Rightarrow> Some (Inl e)
      | Inr None \<Rightarrow> await_node a hi
      | Inr (Some node) \<Rightarrow> Some (Inr node))"

declare await_node.simps [code]

definition add_reserved :: "u32 \<Rightarrow> 'e \<Rightarrow> u64 \<Rightarrow> 'e Array \<Rightarrow> (error + 'e Array) option" where
  "add_reserved LEN elem pos a =
     (let hi = unat (node_index pos) in
      case elem_index LEN pos of
        Inl e \<Rightarrow> Some (Inl e)
      | Inr lo \<Rightarrow>
          (case (if lo = 0 then nodes_store a hi (Some (create_node LEN)) else Inr a) of
             Inl e \<Rightarrow> Some (Inl e)
           | Inr a1 \<Rightarrow>
               (case await_node a1 hi of
                  None \<Rightarrow> None
                | Some (Inl e) \<Rightarrow> Some (Inl e)
                | Some (Inr node) \<Rightarrow>
                    (case node_store node (unat lo) elem of
                       Inl e \<Rightarrow> Some (Inl e)
                     | Inr node' \<Rightarrow>
                         Some (Inr (a1\<lparr>nodes := (nodes a1)[hi := Some node'],
                                      elements_num := elements_num a1 + 1\<rparr>))))))"

partial_function (option) add :: "u32 \<Rightarrow> 'e \<Rightarrow> 'e Array \<Rightarrow> (error + 'e Array) option" where
  "add LEN elem a =
     (let pos = cur_pos a in
      case next' LEN pos of
        Inl e \<Rightarrow> Some (Inl e)
      | Inr next_pos \<Rightarrow>
          (case cmpxchg a pos next_pos of
             (res, a1) \<Rightarrow>
               if res = pos then add_reserved LEN elem pos a1 else add LEN elem a1))"

declare add.simps [code]

text \<open>
  Lines 152--166: \<^verbatim>\<open>iterate_elements\<close>. The visitor is a function \<open>visit\<close> on a visitor
  state \<open>v\<close>; \<open>tot\<close> is the debug counter \<^verbatim>\<open>total\<close>, an \<^verbatim>\<open>uint\<close>. \<open>visit_elements\<close> is the
  inner loop over \<open>j\<close>, \<open>visit_nodes\<close> the outer loop over \<open>i\<close>, which loads
  \<^verbatim>\<open>_nodes[i]\<close> for every \<open>i \<le> hi\<close> before the inner loop decides whether to
  dereference it. The counters are natural numbers: \<open>j < limit\<close> keeps \<open>j + 1\<close> within 32
  bits, and \<open>i\<close> could wrap only at \<open>2^32 - 1\<close>, an index no table has, where the load
  has already failed.
\<close>

function visit_elements ::
  "('e \<Rightarrow> 'v \<Rightarrow> 'v) \<Rightarrow> 'e Node option \<Rightarrow> nat \<Rightarrow> nat \<Rightarrow> 'v \<times> u32 \<Rightarrow> error + 'v \<times> u32" where
  "visit_elements visit node j limit (v, tot) =
     (if j < limit
      then (case node of
              None \<Rightarrow> Inl NullDereference
            | Some n \<Rightarrow>
                (case node_load n j of
                   Inl e \<Rightarrow> Inl e
                 | Inr x \<Rightarrow> visit_elements visit node (j + 1) limit (visit x v, tot + 1)))
      else Inr (v, tot))"
  by pat_completeness auto
termination
  by (relation "measure (\<lambda>(visit, node, j, limit, vt). limit - j)") auto

function visit_nodes ::
  "u32 \<Rightarrow> ('e \<Rightarrow> 'v \<Rightarrow> 'v) \<Rightarrow> 'e Array \<Rightarrow> nat \<Rightarrow> nat \<Rightarrow> nat \<Rightarrow> 'v \<times> u32 \<Rightarrow> error + 'v \<times> u32" where
  "visit_nodes LEN visit a hi lo i vt =
     (if i \<le> hi
      then (let limit = (if i = hi then lo else unat LEN) in
            case nodes_load a i of
              Inl e \<Rightarrow> Inl e
            | Inr node \<Rightarrow>
                (case visit_elements visit node 0 limit vt of
                   Inl e \<Rightarrow> Inl e
                 | Inr vt' \<Rightarrow> visit_nodes LEN visit a hi lo (i + 1) vt'))
      else Inr vt)"
  by pat_completeness auto
termination
  by (relation "measure (\<lambda>(LEN, visit, a, hi, lo, i, vt). hi + 1 - i)") auto

definition iterate_elements :: "u32 \<Rightarrow> ('e \<Rightarrow> 'v \<Rightarrow> 'v) \<Rightarrow> 'e Array \<Rightarrow> 'v \<Rightarrow> error + 'v" where
  "iterate_elements LEN visit a v =
     (let pos = cur_pos a; hi = node_index pos in
      case elem_index LEN pos of
        Inl e \<Rightarrow> Inl e
      | Inr lo \<Rightarrow>
          (case visit_nodes LEN visit a (unat hi) (unat lo) 0 (v, 0) of
             Inl e \<Rightarrow> Inl e
           | Inr (v', tot) \<Rightarrow>
               if tot = elements_num a then Inr v' else Inl AssertionFailed))"

text \<open>
  Lines 180--188: \<^verbatim>\<open>reset\<close>.
  \<open>free_nodes\<close> is its loop: for every \<open>hi\<close> up to and including the cursor's segment
  index it frees \<^verbatim>\<open>_nodes[hi]\<close>, with no test for \<^verbatim>\<open>NULL\<close>, and stores \<^verbatim>\<open>NULL\<close> there.
\<close>

function free_nodes :: "'e Array \<Rightarrow> u64 \<Rightarrow> nat \<Rightarrow> error + 'e Array" where
  "free_nodes a pos hi =
     (if hi \<le> unat (node_index pos)
      then (case nodes_load a hi of
              Inl e \<Rightarrow> Inl e
            | Inr node \<Rightarrow>
                (case free_node node of
                   Inl e \<Rightarrow> Inl e
                 | Inr _ \<Rightarrow>
                     (case nodes_store a hi None of
                        Inl e \<Rightarrow> Inl e
                      | Inr a' \<Rightarrow> free_nodes a' pos (hi + 1))))
      else Inr a)"
  by pat_completeness auto
termination
  by (relation "measure (\<lambda>(a, pos, hi). unat (node_index pos) + 1 - hi)") auto

definition reset :: "'e Array \<Rightarrow> error + 'e Array" where
  "reset a =
     (case free_nodes a (cur_pos a) 0 of
        Inl e \<Rightarrow> Inl e
      | Inr a' \<Rightarrow> Inr (a'\<lparr>elements_num := 0, cur_pos := 0\<rparr>))"

text \<open>Lines 121--124: the destructor \<^verbatim>\<open>~Array\<close> resets the log and then frees the table,
  after which there is no log.\<close>

definition destroy :: "'e Array \<Rightarrow> error + unit" where
  "destroy a = (case reset a of Inl e \<Rightarrow> Inl e | Inr _ \<Rightarrow> Inr ())"

section \<open>The region failure tracker (\<^verbatim>\<open>G1EvacuationFailureObjsInHR\<close>)\<close>

text \<open>Lines 192--201: the element type is \<^verbatim>\<open>uint32_t\<close>, the segment length is 256, and the
  fields of the tracker. An \<^verbatim>\<open>oop\<close> and a \<^verbatim>\<open>HeapWord*\<close> are byte addresses.\<close>

definition NODE_LENGTH :: u32 where
  "NODE_LENGTH = 256"

record G1EvacuationFailureObjsInHR =
  offset_mask :: u64
  region_idx :: u32
  bottom :: u64
  nodes_array :: "u32 Array"
  offset_array :: "u32 list option"
  hr_objs_num :: u32

text \<open>Modelled from the spec: the size of a heap word, which the header takes from the
  rest of the virtual machine. Offsets are "word-granular" distances, and a word of the
  64-bit heap is 8 bytes.\<close>

definition HeapWordSize :: u64 where
  "HeapWordSize = 8"

text \<open>Modelled from the spec: \<^verbatim>\<open>pointer_delta\<close> is declared outside the header; the spec
  has it compute "the word-distance from the region's base address".\<close>

definition pointer_delta :: "u64 \<Rightarrow> u64 \<Rightarrow> u64" where
  "pointer_delta left right = (left - right) div HeapWordSize"

text \<open>Lines 204--212: \<^verbatim>\<open>cast_from_offset\<close> (pointer arithmetic on \<^verbatim>\<open>HeapWord*\<close>, so the
  offset is scaled by the word size) and \<^verbatim>\<open>cast_from_oop_addr\<close>, whose result is narrowed
  from \<^verbatim>\<open>size_t\<close> to \<^verbatim>\<open>Elem\<close>.\<close>

definition cast_from_offset :: "G1EvacuationFailureObjsInHR \<Rightarrow> u32 \<Rightarrow> u64" where
  "cast_from_offset t offset = bottom t + HeapWordSize * ucast offset"

definition cast_from_oop_addr :: "G1EvacuationFailureObjsInHR \<Rightarrow> u64 \<Rightarrow> error + u32" where
  "cast_from_oop_addr t obj =
     (let offset = pointer_delta obj (bottom t) in
      if offset_mask t \<ge> offset then Inr (ucast (offset AND offset_mask t))
      else Inl AssertionFailed)"

text \<open>Modelled from the spec: the constructor is only declared in the header (line 221).
  The spec has the tracker "sized implicitly by the region's geometry (which bounds the
  offset bit-width and the maximum segment count)": the two are the arguments
  \<open>offset_bits\<close> and \<open>max_nodes\<close>, and the mask is the "offset bit-width mask" of that many
  low bits.\<close>

definition new_tracker :: "nat \<Rightarrow> u32 \<Rightarrow> u32 \<Rightarrow> u64 \<Rightarrow> G1EvacuationFailureObjsInHR" where
  "new_tracker offset_bits max_nodes region base =
     \<lparr>offset_mask = mask offset_bits, region_idx = region, bottom = base,
      nodes_array = Array max_nodes, offset_array = None, hr_objs_num = 0\<rparr>"

text \<open>Modelled from the spec: \<^verbatim>\<open>record\<close> is only declared in the header (line 224; named
  \<open>record_obj\<close> here, \<open>record\<close> being a keyword). The spec: it "computes the word-distance
  from the region's base address, asserts it fits the configured bit-width ..., and inserts
  it via the underlying log's add".\<close>

definition record_obj ::
  "G1EvacuationFailureObjsInHR \<Rightarrow> u64 \<Rightarrow> (error + G1EvacuationFailureObjsInHR) option" where
  "record_obj t obj =
     (case cast_from_oop_addr t obj of
        Inl e \<Rightarrow> Some (Inl e)
      | Inr offset \<Rightarrow>
          (case add NODE_LENGTH offset (nodes_array t) of
             None \<Rightarrow> None
           | Some (Inl e) \<Rightarrow> Some (Inl e)
           | Some (Inr a) \<Rightarrow> Some (Inr (t\<lparr>nodes_array := a\<rparr>))))"

text \<open>Modelled from the spec: the normalisation step of \<^verbatim>\<open>iterate\<close> (\<^verbatim>\<open>compact\<close> and
  \<^verbatim>\<open>sort\<close> are only declared, lines 215--216). The spec fixes its result, "ascending
  address order with no duplicate entries", and leaves the algorithm open; here the
  offsets are sorted and adjacent duplicates dropped.\<close>

definition normalize :: "u32 list \<Rightarrow> u32 list" where
  "normalize offsets = remdups_adj (sort offsets)"

text \<open>Modelled from the spec: \<^verbatim>\<open>iterate\<close> is only declared in the header (line 225). The
  spec: it "normalizes the recorded offsets ..., then, for each normalized offset,
  reconstructs the corresponding object address and invokes the supplied visitor". The
  recorded offsets are read with \<open>iterate_elements\<close>; the visitor (\<^verbatim>\<open>ObjectClosure\<close>) is a
  function \<open>do_object\<close> on a closure state. The release of the storage, which the spec
  allows but does not require, is not part of the model.\<close>

definition iterate ::
  "G1EvacuationFailureObjsInHR \<Rightarrow> (u64 \<Rightarrow> 'c \<Rightarrow> 'c) \<Rightarrow> 'c \<Rightarrow> error + 'c" where
  "iterate t do_object closure =
     (case iterate_elements NODE_LENGTH (\<lambda>offset acc. acc @ [offset]) (nodes_array t) [] of
        Inl e \<Rightarrow> Inl e
      | Inr offsets \<Rightarrow>
          Inr (fold (\<lambda>offset c. do_object (cast_from_offset t offset) c)
                 (normalize offsets) closure))"

section \<open>Runs of operations, and the vocabulary of the statements\<close>

text \<open>\<open>adds\<close> is a sequence of completed \<open>add\<close> calls and \<open>records\<close> a sequence of
  completed \<open>record_obj\<close> calls; a failure or a call that does not return ends the run.
  \<open>count_after\<close>, \<open>replay_after\<close> and \<open>reset_after\<close> run \<^verbatim>\<open>objs_num\<close>, \<^verbatim>\<open>iterate_elements\<close>
  (with a visitor that lists what it is given) and \<^verbatim>\<open>reset\<close> on the log obtained from a
  fresh one by such a run. \<open>visits_after\<close> records a list of objects into a tracker and
  then runs \<^verbatim>\<open>iterate\<close> with a visitor that lists the objects it is given.\<close>

fun adds :: "u32 \<Rightarrow> 'e list \<Rightarrow> 'e Array \<Rightarrow> (error + 'e Array) option" where
  "adds LEN [] a = Some (Inr a)"
| "adds LEN (x # xs) a =
     (case add LEN x a of
        None \<Rightarrow> None
      | Some (Inl e) \<Rightarrow> Some (Inl e)
      | Some (Inr a') \<Rightarrow> adds LEN xs a')"

fun records ::
  "u64 list \<Rightarrow> G1EvacuationFailureObjsInHR \<Rightarrow> (error + G1EvacuationFailureObjsInHR) option" where
  "records [] t = Some (Inr t)"
| "records (obj # objs) t =
     (case record_obj t obj of
        None \<Rightarrow> None
      | Some (Inl e) \<Rightarrow> Some (Inl e)
      | Some (Inr t') \<Rightarrow> records objs t')"

definition count_after :: "u32 \<Rightarrow> u32 \<Rightarrow> 'e list \<Rightarrow> nat option" where
  "count_after LEN max_nodes xs =
     (case adds LEN xs (Array max_nodes) of
        Some (Inr a) \<Rightarrow> Some (unat (objs_num a))
      | _ \<Rightarrow> None)"

definition replay_after :: "u32 \<Rightarrow> u32 \<Rightarrow> 'e list \<Rightarrow> (error + 'e list) option" where
  "replay_after LEN max_nodes xs =
     (case adds LEN xs (Array max_nodes) of
        Some (Inr a) \<Rightarrow> Some (iterate_elements LEN (\<lambda>x acc. acc @ [x]) a [])
      | _ \<Rightarrow> None)"

definition reset_after :: "u32 \<Rightarrow> u32 \<Rightarrow> 'e list \<Rightarrow> (error + 'e Array) option" where
  "reset_after LEN max_nodes xs =
     (case adds LEN xs (Array max_nodes) of
        Some (Inr a) \<Rightarrow> Some (reset a)
      | _ \<Rightarrow> None)"


text \<open>\<open>allocated a k\<close>: entry \<open>k\<close> lies inside the table of \<open>a\<close> and is not \<^verbatim>\<open>NULL\<close>.
  \<open>in_region t obj\<close>: the address \<open>obj\<close> is not below the base of the region, is
  word-aligned relative to it, and its word-distance from the base is at most the mask.
  \<open>offset_of t obj\<close> is that word-distance as an element of the log.
  \<open>heap_words base n\<close> are the addresses of the \<open>n\<close> consecutive heap words from \<open>base\<close>.\<close>

definition allocated :: "'e Array \<Rightarrow> nat \<Rightarrow> bool" where
  "allocated a k = (case nodes_load a k of Inr (Some _) \<Rightarrow> True | _ \<Rightarrow> False)"

definition in_region :: "G1EvacuationFailureObjsInHR \<Rightarrow> u64 \<Rightarrow> bool" where
  "in_region t obj =
     (bottom t \<le> obj \<and> unat (obj - bottom t) mod unat HeapWordSize = 0 \<and>
      pointer_delta obj (bottom t) \<le> offset_mask t)"

definition offset_of :: "G1EvacuationFailureObjsInHR \<Rightarrow> u64 \<Rightarrow> u32" where
  "offset_of t obj = ucast (pointer_delta obj (bottom t))"


text \<open>
  The state of a log that holds the elements \<open>xs\<close>, in closed form: segment \<open>i\<close> holds
  the elements \<open>i * L, ..., i * L + L - 1\<close> of \<open>xs\<close> followed by unwritten slots, the
  table points to the segments that hold at least one element, the cursor is
  \<open>(length xs div L, length xs mod L)\<close> and the counter is \<open>length xs\<close> modulo \<open>2^32\<close>.
  \<open>cleared i a\<close> is \<open>a\<close> with the first \<open>i\<close> table entries set to \<^verbatim>\<open>NULL\<close>, and
  \<open>free_failure a k\<close> the failure of \<^verbatim>\<open>reset\<close> at an entry that is not allocated.
\<close>

definition segment :: "nat \<Rightarrow> 'e list \<Rightarrow> nat \<Rightarrow> 'e Node" where
  "segment L xs i =
     (let ys = take L (drop (i * L) xs) in map Some ys @ replicate (L - length ys) None)"

definition filled :: "u32 \<Rightarrow> u32 \<Rightarrow> 'e list \<Rightarrow> 'e Array" where
  "filled LEN max_nodes xs =
     (let L = unat LEN; M = length xs in
      \<lparr>max_nodes_length = max_nodes,
       cur_pos = of_nat (M div L * 2 ^ 32 + M mod L),
       nodes = map (\<lambda>i. if i * L < M then Some (segment L xs i) else None)
                 [0..<unat max_nodes],
       elements_num = of_nat M\<rparr>)"

definition cleared :: "nat \<Rightarrow> 'e Array \<Rightarrow> 'e Array" where
  "cleared i a = a\<lparr>nodes := replicate (min i (length (nodes a))) None @ drop i (nodes a)\<rparr>"

definition free_failure :: "'e Array \<Rightarrow> nat \<Rightarrow> error" where
  "free_failure a k = (case nodes_load a k of Inl e \<Rightarrow> e | Inr _ \<Rightarrow> NullDereference)"

section \<open>Concurrent insertion: \<^verbatim>\<open>add\<close> run by several threads\<close>

text \<open>
  Lines 130--149 again, now with the steps of several threads interleaved. The shared
  state is the log itself; the nodes live in a heap \<open>sh_heap\<close> (a node's address is its
  position there, and nodes are never freed while threads insert), and the table
  \<open>sh_nodes\<close> holds addresses, \<open>None\<close> being \<^verbatim>\<open>NULL\<close>. \<open>view\<close> reads the shared state
  as an \<open>Array\<close> of the sections above, following every pointer of the table.
\<close>

record 'e Shared =
  sh_max_nodes_length :: u32
  sh_cur_pos :: u64
  sh_nodes :: "nat option list"
  sh_heap :: "'e Node list"
  sh_elements_num :: u32

definition new_Shared :: "u32 \<Rightarrow> 'e Shared" where
  "new_Shared max_nodes =
     \<lparr>sh_max_nodes_length = max_nodes, sh_cur_pos = 0,
      sh_nodes = replicate (unat max_nodes) None, sh_heap = [], sh_elements_num = 0\<rparr>"

definition view :: "'e Shared \<Rightarrow> 'e Array" where
  "view s =
     \<lparr>max_nodes_length = sh_max_nodes_length s, cur_pos = sh_cur_pos s,
      nodes = map (map_option (\<lambda>p. sh_heap s ! p)) (sh_nodes s),
      elements_num = sh_elements_num s\<rparr>"

text \<open>
  The position of a thread inside \<^verbatim>\<open>add\<close>, with the locals that are live there:
  \<^item> \<open>Idle\<close>: between two calls;
  \<^item> \<open>Start elem\<close>: at the head of \<^verbatim>\<open>while (true)\<close> (line 131);
  \<^item> \<open>Loaded elem pos next_pos\<close>: lines 132--133 are done, the exchange of line 134 is
    next;
  \<^item> \<open>Reserved elem pos\<close>: the exchange has succeeded (line 135);
  \<^item> \<open>Waiting elem hi lo\<close>: at the wait of line 142;
  \<^item> \<open>Writing elem hi lo node\<close>: the wait has read the address \<open>node\<close>, the write of
    line 144 is next;
  \<^item> \<open>Counting elem hi lo\<close>: the increment of line 145 is next;
  \<^item> \<open>Failed e\<close>: the thread has stopped on the failure \<open>e\<close>.

  A thread is its position and the elements of the calls it has still to make.
\<close>

datatype 'e pc =
    Idle
  | Start 'e
  | Loaded 'e u64 u64
  | Reserved 'e u64
  | Waiting 'e u32 u32
  | Writing 'e u32 u32 nat
  | Counting 'e u32 u32
  | Failed error

type_synonym 'e thread = "'e pc \<times> 'e list"

text \<open>\<^verbatim>\<open>Atomic::load(&_nodes[hi])\<close> and \<^verbatim>\<open>Atomic::store(&_nodes[hi], create_node())\<close> on
  the shared state, with the bounds of \<open>nodes_load\<close> and \<open>nodes_store\<close>. The new node
  is private to its creator until the store, so that its creation and the store are one
  step.\<close>

definition sh_load :: "'e Shared \<Rightarrow> nat \<Rightarrow> error + nat option" where
  "sh_load s i =
     (if i < unat (sh_max_nodes_length s) \<and> i < length (sh_nodes s)
      then Inr (sh_nodes s ! i) else Inl OutOfBounds)"

definition sh_publish :: "u32 \<Rightarrow> 'e Shared \<Rightarrow> nat \<Rightarrow> error + 'e Shared" where
  "sh_publish LEN s i =
     (if i < unat (sh_max_nodes_length s) \<and> i < length (sh_nodes s)
      then Inr (s\<lparr>sh_nodes := (sh_nodes s)[i := Some (length (sh_heap s))],
                  sh_heap := sh_heap s @ [create_node LEN]\<rparr>)
      else Inl OutOfBounds)"

text \<open>
  One step of one thread: at most one access to the shared state, together with the
  computation on locals that follows or precedes it. Accesses are interleaved in one
  global order (every \<^verbatim>\<open>Atomic\<close> access takes effect at once and is seen by all threads).
  \<^item> \<open>Start\<close>: \<^verbatim>\<open>pos = Atomic::load(&_cur_pos)\<close>, then \<^verbatim>\<open>next(pos)\<close> with its assertions;
  \<^item> \<open>Loaded\<close>: \<^verbatim>\<open>Atomic::cmpxchg(&_cur_pos, pos, next_pos)\<close> and the test
    \<^verbatim>\<open>res == pos\<close>; on failure the loop starts again;
  \<^item> \<open>Reserved\<close>: \<^verbatim>\<open>node_index\<close>, \<^verbatim>\<open>elem_index\<close> with its assertion, and for
    \<^verbatim>\<open>lo == 0\<close> the store of a new node;
  \<^item> \<open>Waiting\<close>: one round of \<^verbatim>\<open>while ((node = Atomic::load(&_nodes[hi])) == NULL);\<close>,
    which leaves the thread where it is when the entry is still \<^verbatim>\<open>NULL\<close>;
  \<^item> \<open>Writing\<close>: \<^verbatim>\<open>node->operator[](lo) = elem\<close>, through the address that was read;
  \<^item> \<open>Counting\<close>: \<^verbatim>\<open>Atomic::inc(&_elements_num)\<close>, after which the call returns.

  \<open>None\<close>: the thread has no step (all its calls have returned, or it has failed).
\<close>

fun thread_step :: "u32 \<Rightarrow> 'e thread \<Rightarrow> 'e Shared \<Rightarrow> ('e thread \<times> 'e Shared) option" where
  "thread_step LEN (Idle, []) s = None"
| "thread_step LEN (Idle, elem # todo) s = Some ((Start elem, todo), s)"
| "thread_step LEN (Start elem, todo) s =
     (let pos = sh_cur_pos s in
      case next' LEN pos of
        Inl e \<Rightarrow> Some ((Failed e, todo), s)
      | Inr next_pos \<Rightarrow> Some ((Loaded elem pos next_pos, todo), s))"
| "thread_step LEN (Loaded elem pos next_pos, todo) s =
     (if sh_cur_pos s = pos
      then Some ((Reserved elem pos, todo), s\<lparr>sh_cur_pos := next_pos\<rparr>)
      else Some ((Start elem, todo), s))"
| "thread_step LEN (Reserved elem pos, todo) s =
     (let hi = node_index pos in
      case elem_index LEN pos of
        Inl e \<Rightarrow> Some ((Failed e, todo), s)
      | Inr lo \<Rightarrow>
          (case (if lo = 0 then sh_publish LEN s (unat hi) else Inr s) of
             Inl e \<Rightarrow> Some ((Failed e, todo), s)
           | Inr s1 \<Rightarrow> Some ((Waiting elem hi lo, todo), s1)))"
| "thread_step LEN (Waiting elem hi lo, todo) s =
     (case sh_load s (unat hi) of
        Inl e \<Rightarrow> Some ((Failed e, todo), s)
      | Inr None \<Rightarrow> Some ((Waiting elem hi lo, todo), s)
      | Inr (Some node) \<Rightarrow> Some ((Writing elem hi lo node, todo), s))"
| "thread_step LEN (Writing elem hi lo node, todo) s =
     (if node < length (sh_heap s)
      then (case node_store (sh_heap s ! node) (unat lo) elem of
              Inl e \<Rightarrow> Some ((Failed e, todo), s)
            | Inr n \<Rightarrow> Some ((Counting elem hi lo, todo), s\<lparr>sh_heap := (sh_heap s)[node := n]\<rparr>))
      else Some ((Failed OutOfBounds, todo), s))"
| "thread_step LEN (Counting elem hi lo, todo) s =
     Some ((Idle, todo), s\<lparr>sh_elements_num := sh_elements_num s + 1\<rparr>)"
| "thread_step LEN (Failed e, todo) s = None"

text \<open>A step of the system is a step of one of its threads. \<open>run\<close> follows a schedule,
  the list of the threads that step, in order; \<open>spawn\<close> starts one thread for each list
  of elements, and \<open>finished\<close> holds when every call of every thread has returned.\<close>

inductive par_step :: "u32 \<Rightarrow> 'e thread list \<times> 'e Shared \<Rightarrow> 'e thread list \<times> 'e Shared \<Rightarrow> bool"
  for LEN :: u32 where
  step: "i < length ts \<Longrightarrow> thread_step LEN (ts ! i) s = Some (t', s') \<Longrightarrow>
         par_step LEN (ts, s) (ts[i := t'], s')"

definition spawn :: "'e list list \<Rightarrow> 'e thread list" where
  "spawn todos = map (\<lambda>todo. (Idle, todo)) todos"

definition finished :: "'e thread list \<Rightarrow> bool" where
  "finished ts = list_all (\<lambda>t. t = (Idle, [])) ts"

fun run :: "u32 \<Rightarrow> nat list \<Rightarrow> 'e thread list \<times> 'e Shared \<Rightarrow> ('e thread list \<times> 'e Shared) option" where
  "run LEN [] c = Some c"
| "run LEN (i # sched) (ts, s) =
     (if i < length ts
      then (case thread_step LEN (ts ! i) s of
              None \<Rightarrow> None
            | Some (t', s') \<Rightarrow> run LEN sched (ts[i := t'], s'))
      else None)"

text \<open>
  The vocabulary of the invariant. A thread whose exchange has succeeded holds one slot
  of the log, \<open>held\<close>, counted from the start of the log (segment index times \<open>LEN\<close> plus
  slot index). \<open>reserved\<close>: it has not yet passed the store of lines 138--140; \<open>early\<close>:
  it has not yet left the wait; \<open>unwritten\<close>: it has not yet written its element.
  \<open>pending\<close> are the elements a thread has still to reserve a slot for, and \<open>holder\<close>
  says that a slot is held by a thread with a given property.
\<close>

definition held :: "u32 \<Rightarrow> 'e thread \<Rightarrow> nat option" where
  "held LEN t =
     (case fst t of
        Reserved _ pos \<Rightarrow> Some (unat (node_index pos) * unat LEN + unat (low pos))
      | Waiting _ hi lo \<Rightarrow> Some (unat hi * unat LEN + unat lo)
      | Writing _ hi lo _ \<Rightarrow> Some (unat hi * unat LEN + unat lo)
      | Counting _ hi lo \<Rightarrow> Some (unat hi * unat LEN + unat lo)
      | _ \<Rightarrow> None)"

definition reserved :: "'e thread \<Rightarrow> bool" where
  "reserved t = (case fst t of Reserved _ _ \<Rightarrow> True | _ \<Rightarrow> False)"

definition early :: "'e thread \<Rightarrow> bool" where
  "early t = (case fst t of Reserved _ _ \<Rightarrow> True | Waiting _ _ _ \<Rightarrow> True | _ \<Rightarrow> False)"

definition pending :: "'e thread \<Rightarrow> 'e multiset" where
  "pending t =
     (case fst t of Start e \<Rightarrow> {#e#} | Loaded e _ _ \<Rightarrow> {#e#} | _ \<Rightarrow> {#}) + mset (snd t)"

definition in_flight :: "u32 \<Rightarrow> 'e thread \<Rightarrow> nat" where
  "in_flight LEN t = (if held LEN t = None then 0 else 1)"

definition owns :: "u32 \<Rightarrow> 'e list \<Rightarrow> nat \<Rightarrow> nat \<Rightarrow> 'e \<Rightarrow> bool" where
  "owns LEN ys hi lo e =
     (lo < unat LEN \<and> hi * unat LEN + lo < length ys \<and> ys ! (hi * unat LEN + lo) = e)"

fun thread_inv :: "u32 \<Rightarrow> 'e list \<Rightarrow> 'e Shared \<Rightarrow> 'e pc \<Rightarrow> bool" where
  "thread_inv LEN ys s Idle = True"
| "thread_inv LEN ys s (Start e) = True"
| "thread_inv LEN ys s (Loaded e pos np) = (next' LEN pos = Inr np)"
| "thread_inv LEN ys s (Reserved e pos) = owns LEN ys (unat (node_index pos)) (unat (low pos)) e"
| "thread_inv LEN ys s (Waiting e hi lo) = owns LEN ys (unat hi) (unat lo) e"
| "thread_inv LEN ys s (Writing e hi lo p) =
     (owns LEN ys (unat hi) (unat lo) e \<and> unat hi < length (sh_nodes s) \<and>
      sh_nodes s ! unat hi = Some p)"
| "thread_inv LEN ys s (Counting e hi lo) = owns LEN ys (unat hi) (unat lo) e"
| "thread_inv LEN ys s (Failed e) = False"

definition unwritten :: "'e thread \<Rightarrow> bool" where
  "unwritten t =
     (case fst t of Reserved _ _ \<Rightarrow> True | Waiting _ _ _ \<Rightarrow> True | Writing _ _ _ _ \<Rightarrow> True
      | _ \<Rightarrow> False)"

definition holder :: "u32 \<Rightarrow> ('e thread \<Rightarrow> bool) \<Rightarrow> 'e thread list \<Rightarrow> nat \<Rightarrow> bool" where
  "holder LEN Q ts k = (\<exists>j<length ts. held LEN (ts ! j) = Some k \<and> Q (ts ! j))"

text \<open>
  The invariant of the interleaved system, for the list \<open>ys\<close> of the elements in the
  order of their reservations:
  \<^item> the cursor is the one of a log that holds \<open>ys\<close>;
  \<^item> every thread past its exchange holds a slot below \<open>length ys\<close> whose element in
    \<open>ys\<close> is its own, no thread has failed, and the address a thread has read is the
    one in the table;
  \<^item> no slot is held by two threads;
  \<^item> the table points into the heap, and no two entries point to the same node;
  \<^item> entry \<open>i\<close> is \<^verbatim>\<open>NULL\<close> exactly when slot \<open>(i, 0)\<close> is not yet reserved or its
    holder has not yet stored the node;
  \<^item> a slot of an allocated node holds its element of \<open>ys\<close> once that is written, and is
    unwritten before;
  \<^item> the slots of a segment that is not allocated are held by threads that have not left
    the wait;
  \<^item> the counter, plus the number of threads that hold a slot, is \<open>length ys\<close>;
  \<^item> \<open>ys\<close> and the pending elements are together the elements \<open>T\<close> to insert, which
    fit the table.

  \<open>step_ok\<close>: thread \<open>i\<close> may move to \<open>t'\<close> without two threads holding one slot.
\<close>

definition inv_cursor :: "u32 \<Rightarrow> 'e Shared \<Rightarrow> 'e list \<Rightarrow> bool" where
  "inv_cursor LEN s ys =
     (0 < unat LEN \<and> length (sh_nodes s) = unat (sh_max_nodes_length s) \<and>
      sh_cur_pos s = cur_pos (filled LEN (sh_max_nodes_length s) ys))"

definition inv_threads :: "u32 \<Rightarrow> 'e thread list \<Rightarrow> 'e Shared \<Rightarrow> 'e list \<Rightarrow> bool" where
  "inv_threads LEN ts s ys = (\<forall>i<length ts. thread_inv LEN ys s (fst (ts ! i)))"

definition inv_unique :: "u32 \<Rightarrow> 'e thread list \<Rightarrow> bool" where
  "inv_unique LEN ts =
     (\<forall>i<length ts. \<forall>j<length ts. \<forall>k.
        held LEN (ts ! i) = Some k \<longrightarrow> held LEN (ts ! j) = Some k \<longrightarrow> i = j)"

definition inv_pointers :: "'e Shared \<Rightarrow> bool" where
  "inv_pointers s =
     (\<forall>i<length (sh_nodes s). \<forall>p. sh_nodes s ! i = Some p \<longrightarrow>
        p < length (sh_heap s) \<and>
        (\<forall>j<length (sh_nodes s). sh_nodes s ! j = Some p \<longrightarrow> i = j))"

definition inv_table :: "u32 \<Rightarrow> 'e thread list \<Rightarrow> 'e Shared \<Rightarrow> 'e list \<Rightarrow> bool" where
  "inv_table LEN ts s ys =
     (\<forall>i<length (sh_nodes s).
        (sh_nodes s ! i = None) =
        (length ys \<le> i * unat LEN \<or>
         holder LEN reserved ts (i * unat LEN)))"

definition inv_heap :: "u32 \<Rightarrow> 'e thread list \<Rightarrow> 'e Shared \<Rightarrow> 'e list \<Rightarrow> bool" where
  "inv_heap LEN ts s ys =
     (\<forall>i<length (sh_nodes s). \<forall>p. sh_nodes s ! i = Some p \<longrightarrow>
        length (sh_heap s ! p) = unat LEN \<and>
        (\<forall>j<unat LEN.
           sh_heap s ! p ! j =
             (if i * unat LEN + j < length ys \<and> \<not> holder LEN unwritten ts (i * unat LEN + j)
              then Some (ys ! (i * unat LEN + j)) else None)))"

definition inv_early :: "u32 \<Rightarrow> 'e thread list \<Rightarrow> 'e Shared \<Rightarrow> 'e list \<Rightarrow> bool" where
  "inv_early LEN ts s ys =
     (\<forall>k<length ys. sh_nodes s ! (k div unat LEN) = None \<longrightarrow>
        holder LEN early ts k)"

definition inv_count :: "u32 \<Rightarrow> 'e thread list \<Rightarrow> 'e Shared \<Rightarrow> 'e list \<Rightarrow> bool" where
  "inv_count LEN ts s ys =
     (sh_elements_num s + of_nat (sum_list (map (in_flight LEN) ts)) = of_nat (length ys))"

definition inv_elems :: "u32 \<Rightarrow> 'e multiset \<Rightarrow> 'e thread list \<Rightarrow> 'e Shared \<Rightarrow> 'e list \<Rightarrow> bool" where
  "inv_elems LEN T ts s ys =
     (mset ys + sum_list (map pending ts) = T \<and>
      size T \<le> unat (sh_max_nodes_length s) * unat LEN)"

definition log_inv :: "u32 \<Rightarrow> 'e multiset \<Rightarrow> 'e thread list \<Rightarrow> 'e Shared \<Rightarrow> 'e list \<Rightarrow> bool" where
  "log_inv LEN T ts s ys =
     (inv_cursor LEN s ys \<and> inv_threads LEN ts s ys \<and> inv_unique LEN ts \<and> inv_pointers s \<and>
      inv_table LEN ts s ys \<and> inv_heap LEN ts s ys \<and> inv_early LEN ts s ys \<and>
      inv_count LEN ts s ys \<and> inv_elems LEN T ts s ys)"

definition step_ok :: "u32 \<Rightarrow> 'e thread list \<Rightarrow> nat \<Rightarrow> 'e thread \<Rightarrow> bool" where
  "step_ok LEN ts i t' =
     (i < length ts \<and> inv_unique LEN ts \<and>
      (held LEN t' = None \<or> held LEN t' = held LEN (ts ! i) \<or>
       (\<forall>j<length ts. held LEN (ts ! j) \<noteq> held LEN t')))"

section \<open>Facts about the cursor\<close>

lemma LOW_MASK_eq: "LOW_MASK = mask 32"
  by (simp add: LOW_MASK_def TMP_def mask_eq_exp_minus_1)

lemma HIGH_MASK_eq: "HIGH_MASK = push_bit 32 (mask 32)"
  by (simp add: HIGH_MASK_def LOW_MASK_eq)

lemma unat_LOW_MASK: "unat LOW_MASK = 2 ^ 32 - 1"
  by (simp add: LOW_MASK_def TMP_def)

lemma unat_HIGH_MASK: "unat HIGH_MASK = (2 ^ 32 - 1) * 2 ^ 32"
  by (simp add: HIGH_MASK_def LOW_MASK_def TMP_def)

lemma low_take_bit: "low n = take_bit 32 n"
  by (simp add: low_def LOW_MASK_eq take_bit_eq_mask)

lemma high_push_drop: "high n = push_bit 32 (drop_bit 32 n)"
  unfolding high_def HIGH_MASK_eq
  by (rule bit_word_eqI) (auto simp: bit_simps)

lemma unat_lt_2p64: "unat (n :: u64) < 2 ^ 64"
  using unsigned_less [of n, where 'a = nat] by simp

lemma unat_low: "unat (low n) = unat n mod 2 ^ 32"
  by (simp add: low_take_bit take_bit_eq_mod unat_mod)

lemma unat_drop32: "unat (drop_bit 32 (n :: u64)) = unat n div 2 ^ 32"
  by (simp add: drop_bit_eq_div unat_div)

lemma unat_high: "unat (high n) = (unat n div 2 ^ 32) * 2 ^ 32"
proof -
  have "unat n div 2 ^ 32 * 2 ^ 32 \<le> unat n"
    by simp
  then have "unat n div 2 ^ 32 * 2 ^ 32 < 2 ^ 64"
    using unat_lt_2p64 [of n] by linarith
  moreover have "unat (high n) = (unat (drop_bit 32 n) * 2 ^ 32) mod 2 ^ 64"
    by (simp add: high_push_drop push_bit_eq_mult unat_word_ariths)
  ultimately show ?thesis
    by (simp add: unat_drop32)
qed

lemma unat_node_index: "unat (node_index n) = unat n div 2 ^ 32"
proof -
  have "unat n div 2 ^ 32 < 2 ^ 32"
    using unat_lt_2p64 [of n] by (simp add: less_mult_imp_div_less)
  moreover have "unat (node_index n) = unat (drop_bit 32 (high n)) mod 2 ^ 32"
    by (simp add: node_index_def unsigned_ucast_eq take_bit_eq_mod)
  ultimately show ?thesis
    by (simp add: unat_drop32 unat_high)
qed

lemma unat_split_cursor: "unat (n :: u64) = unat (node_index n) * 2 ^ 32 + unat (low n)"
  by (simp add: unat_node_index unat_low)


lemma high_plus_low: "high n + low n = n"
  by (simp add: high_push_drop low_take_bit bits_ident)

lemma high_AND_small:
  fixes x :: u64
  assumes "unat x < 2 ^ 32"
  shows "high n AND x = 0"
proof -
  from assms have "x = take_bit 32 x"
    by (metis take_bit_nat_eq_self_iff unsigned_take_bit_eq unsigned_word_eqI)
  then have "high n AND x = push_bit 32 (drop_bit 32 n) AND take_bit 32 x"
    by (simp add: high_push_drop)
  also have "\<dots> = 0"
    by (rule bit_word_eqI) (auto simp: bit_simps)
  finally show ?thesis .
qed

lemma unat_lt_2p32: "unat (x :: u32) < 2 ^ 32"
  using unsigned_less [of x, where 'a = nat] by simp

lemma unat_ucast_u32 [simp]: "unat (ucast (x :: u32) :: u64) = unat x"
proof -
  have "unat x < 2 ^ 64"
    using unat_lt_2p32 [of x] by simp
  then show ?thesis
    by (simp add: unsigned_ucast_eq take_bit_eq_mod)
qed


lemma unat_high_node_index: "unat (high n) = unat (node_index n) * 2 ^ 32"
  by (simp add: unat_high unat_node_index)

lemma next'_eq:
  assumes lo: "unat (low n) < unat LEN" and hi: "unat (node_index n) < 2 ^ 32 - 1"
  shows "next' LEN n =
           Inr (if low n + 1 = ucast LEN then high n + push_bit 32 1 else n + 1)"
proof -
  have a1: "low n < ucast LEN"
    using lo by (simp add: word_less_nat_alt)
  have a2: "(ucast LEN :: u64) \<le> LOW_MASK"
    using unat_lt_2p32 [of LEN] by (simp add: word_le_nat_alt unat_LOW_MASK)
  have a3: "high n < HIGH_MASK"
    using hi by (simp add: word_less_nat_alt unat_HIGH_MASK unat_high_node_index)
  have a4: "high n \<le> HIGH_MASK"
    using a3 by simp
  have step: "unat (high n + push_bit 32 1) = unat (high n) + 2 ^ 32"
    using hi by (simp add: unat_word_ariths unat_high_node_index)
  have a5: "high n + push_bit 32 1 \<le> HIGH_MASK"
    using hi step by (simp add: word_le_nat_alt unat_HIGH_MASK unat_high_node_index)
  have "unat (low n + 1) < 2 ^ 32"
    using lo unat_lt_2p32 [of LEN] by (simp add: unat_word_ariths)
  then have "high n OR (low n + 1) = high n + (low n + 1)"
    by (simp add: disjunctive_add_eq_or high_AND_small)
  then have a6: "high n OR (low n + 1) = n + 1"
    using high_plus_low [of n] by (simp add: add.assoc [symmetric])
  show ?thesis
    using a1 a2 a3 a4 a5 a6 by (simp add: next'_def Let_def)
qed

section \<open>One insertion into a log in closed form\<close>

lemma filled_Nil: "filled LEN max_nodes [] = Array max_nodes"
  by (simp add: filled_def Array_def map_replicate_const)

lemma length_segment [simp]: "length (segment L xs i) = L"
  by (simp add: segment_def Let_def)

lemma div_le_max:
  fixes M mx L :: nat
  assumes "M \<le> mx * L" "0 < L"
  shows "M div L \<le> mx"
proof -
  have "M div L \<le> (mx * L) div L"
    using assms(1) by (rule div_le_mono)
  then show ?thesis
    using assms(2) by simp
qed

lemma unat_of_nat_u64: "n < 2 ^ 64 \<Longrightarrow> unat (of_nat n :: u64) = n"
  by (simp add: unat_of_nat)

lemma unat_of_nat_u32: "n < 2 ^ 32 \<Longrightarrow> unat (of_nat n :: u32) = n"
  by (simp add: unat_of_nat)

lemma unat_cur_pos_filled:
  assumes "0 < unat LEN" "length xs \<le> unat max_nodes * unat LEN"
  shows "unat (cur_pos (filled LEN max_nodes xs)) =
           length xs div unat LEN * 2 ^ 32 + length xs mod unat LEN"
proof -
  let ?L = "unat LEN" and ?M = "length xs"
  have "?M div ?L \<le> unat max_nodes"
    using assms by (simp add: div_le_max)
  then have h: "?M div ?L < 2 ^ 32"
    using unat_lt_2p32 [of max_nodes] by simp
  have "?M mod ?L < ?L"
    using assms by simp
  then have l: "?M mod ?L < 2 ^ 32"
    using unat_lt_2p32 [of LEN] by simp
  have "?M div ?L * 2 ^ 32 + ?M mod ?L < 2 ^ 64"
    using h l by simp
  then have "unat (of_nat (?M div ?L * 2 ^ 32 + ?M mod ?L) :: u64) =
      ?M div ?L * 2 ^ 32 + ?M mod ?L"
    by (rule unat_of_nat_u64)
  then show ?thesis
    by (simp only: filled_def Let_def Array.simps)
qed

lemma low_filled:
  assumes "0 < unat LEN" "length xs \<le> unat max_nodes * unat LEN"
  shows "unat (low (cur_pos (filled LEN max_nodes xs))) = length xs mod unat LEN"
proof -
  have "length xs mod unat LEN < unat LEN"
    using assms by simp
  then have "length xs mod unat LEN < 2 ^ 32"
    using unat_lt_2p32 [of LEN] by simp
  then show ?thesis
    using assms by (simp add: unat_low unat_cur_pos_filled)
qed

lemma node_index_filled:
  assumes "0 < unat LEN" "length xs \<le> unat max_nodes * unat LEN"
  shows "unat (node_index (cur_pos (filled LEN max_nodes xs))) = length xs div unat LEN"
proof -
  have "length xs mod unat LEN < unat LEN"
    using assms by simp
  then have "length xs mod unat LEN < 2 ^ 32"
    using unat_lt_2p32 [of LEN] by simp
  then show ?thesis
    using assms by (simp add: unat_node_index unat_cur_pos_filled)
qed

lemma low_succ_eq_LEN:
  fixes LEN :: u32
  assumes "unat (low n) < unat LEN"
  shows "(low n + 1 = ucast LEN) = (unat (low n) + 1 = unat LEN)"
proof -
  have "unat (low n) + 1 < 2 ^ 64"
    using assms unat_lt_2p32 [of LEN] by simp
  then have "unat (low n + 1) = unat (low n) + 1"
    by (simp add: unat_word_ariths)
  then show ?thesis
    by (simp add: word_unat_eq_iff)
qed

lemma next'_unat:
  assumes lo: "unat (low n) < unat LEN" and hi: "unat (node_index n) < 2 ^ 32 - 1"
  shows "\<exists>n'. next' LEN n = Inr n' \<and>
           unat n' = (if unat (low n) + 1 = unat LEN
                      then (unat (node_index n) + 1) * 2 ^ 32 else unat n + 1)"
proof (cases "unat (low n) + 1 = unat LEN")
  case True
  have "unat (high n + push_bit 32 1) = unat (high n) + 2 ^ 32"
    using hi by (simp add: unat_word_ariths unat_high_node_index)
  then have "unat (high n + push_bit 32 1) = (unat (node_index n) + 1) * 2 ^ 32"
    by (simp add: unat_high_node_index)
  then show ?thesis
    using True lo hi by (simp add: next'_eq low_succ_eq_LEN)
next
  case False
  have "unat n = unat (node_index n) * 2 ^ 32 + unat (low n)"
    by (rule unat_split_cursor)
  moreover have "unat (low n) < 2 ^ 32"
    using lo unat_lt_2p32 [of LEN] by simp
  ultimately have "unat n + 1 < 2 ^ 64"
    using hi by simp
  then have "unat (n + 1) = unat n + 1"
    by (simp add: unat_word_ariths)
  then show ?thesis
    using False lo hi by (simp add: next'_eq low_succ_eq_LEN)
qed

lemma elem_index_eq:
  assumes "unat (low n) < unat LEN"
  shows "elem_index LEN n = Inr (of_nat (unat (low n)))"
proof -
  have "low n < ucast LEN"
    using assms by (simp add: word_less_nat_alt)
  moreover have "(ucast (low n) :: u32) = of_nat (unat (low n))"
    by simp
  ultimately show ?thesis
    by (simp add: elem_index_def)
qed

lemma elem_index_filled:
  assumes "0 < unat LEN" "length xs \<le> unat max_nodes * unat LEN"
  shows "elem_index LEN (cur_pos (filled LEN max_nodes xs)) = Inr (of_nat (length xs mod unat LEN))"
  using assms by (simp add: elem_index_eq low_filled)

lemma next'_filled:
  assumes "0 < unat LEN" "length xs < unat max_nodes * unat LEN"
  shows "next' LEN (cur_pos (filled LEN max_nodes xs)) =
           Inr (cur_pos (filled LEN max_nodes (xs @ [x])))"
proof -
  let ?L = "unat LEN" and ?M = "length xs"
  let ?n = "cur_pos (filled LEN max_nodes xs)"
  have le: "?M \<le> unat max_nodes * ?L" and le': "length (xs @ [x]) \<le> unat max_nodes * ?L"
    using assms by simp_all
  have lo: "unat (low ?n) = ?M mod ?L"
    using assms(1) le by (rule low_filled)
  have hi: "unat (node_index ?n) = ?M div ?L"
    using assms(1) le by (rule node_index_filled)
  have "?M div ?L < unat max_nodes"
    using assms by (simp add: less_mult_imp_div_less)
  then have hi_lt: "unat (node_index ?n) < 2 ^ 32 - 1"
    using unat_lt_2p32 [of max_nodes] hi by simp
  have lo_lt: "unat (low ?n) < ?L"
    using assms lo by simp
  obtain n' where n': "next' LEN ?n = Inr n'"
    and u: "unat n' = (if unat (low ?n) + 1 = ?L
                      then (unat (node_index ?n) + 1) * 2 ^ 32 else unat ?n + 1)"
    using next'_unat [OF lo_lt hi_lt] by blast
  have "unat n' = unat (cur_pos (filled LEN max_nodes (xs @ [x])))"
  proof (cases "?M mod ?L + 1 = ?L")
    case True
    then have "Suc ?M mod ?L = 0" "Suc ?M div ?L = Suc (?M div ?L)"
      by (simp_all add: mod_Suc div_Suc)
    then show ?thesis
      using True u lo hi assms(1) le' by (simp add: unat_cur_pos_filled)
  next
    case False
    then have "Suc ?M mod ?L = Suc (?M mod ?L)" "Suc ?M div ?L = ?M div ?L"
      by (simp_all add: mod_Suc div_Suc)
    then show ?thesis
      using False u lo hi assms(1) le le' by (simp add: unat_cur_pos_filled)
  qed
  then show ?thesis
    using n' by (simp add: word_unat_eq_iff)
qed

lemma add_eq:
  "add LEN elem a =
     (case next' LEN (cur_pos a) of
        Inl e \<Rightarrow> Some (Inl e)
      | Inr next_pos \<Rightarrow> add_reserved LEN elem (cur_pos a) (a\<lparr>cur_pos := next_pos\<rparr>))"
  by (subst add.simps) (simp add: cmpxchg_def Let_def split: sum.splits)

lemma await_node_Some: "nodes_load a hi = Inr (Some node) \<Longrightarrow> await_node a hi = Some (Inr node)"
  by (subst await_node.simps) simp

lemma await_node_error: "nodes_load a hi = Inl e \<Longrightarrow> await_node a hi = Some (Inl e)"
  by (subst await_node.simps) simp

lemma segment_snoc_full:
  assumes "(i + 1) * L \<le> length xs"
  shows "segment L (xs @ [x]) i = segment L xs i"
proof -
  have "L \<le> length (drop (i * L) xs)"
    using assms by simp
  then have "take L (drop (i * L) (xs @ [x])) = take L (drop (i * L) xs)"
    using assms by simp
  then show ?thesis
    by (simp only: segment_def Let_def)
qed

lemma segment_snoc_last:
  assumes "0 < L"
  shows "segment L (xs @ [x]) (length xs div L) =
           (segment L xs (length xs div L))[length xs mod L := Some x]"
proof -
  let ?i = "length xs div L"
  let ?d = "drop (?i * L) xs"
  have len: "length ?d = length xs mod L"
    by (simp add: minus_div_mult_eq_mod)
  then have lt: "length ?d < L"
    using assms by simp
  have "drop (?i * L) (xs @ [x]) = ?d @ [x]"
    by simp
  moreover have "take L (?d @ [x]) = ?d @ [x]" "take L ?d = ?d"
    using lt by simp_all
  ultimately have "segment L (xs @ [x]) ?i =
      map Some ?d @ Some x # replicate (L - Suc (length ?d)) None"
    by (simp add: segment_def)
  moreover have "(segment L xs ?i)[length xs mod L := Some x] =
      map Some ?d @ (replicate (L - length ?d) None)[0 := Some x]"
    using lt len by (simp add: segment_def list_update_append)
  moreover have "(replicate (L - length ?d) None)[0 := Some x] =
      Some x # replicate (L - Suc (length ?d)) None"
    using lt by (cases "L - length ?d") (simp_all add: Suc_diff_Suc)
  ultimately show ?thesis
    by simp
qed

lemma segment_empty:
  assumes "length xs \<le> i * L"
  shows "segment L xs i = replicate L None"
  using assms by (simp add: segment_def)


lemma nodes_filled [simp]:
  "nodes (filled LEN max_nodes xs) =
     map (\<lambda>i. if i * unat LEN < length xs then Some (segment (unat LEN) xs i) else None)
       [0..<unat max_nodes]"
  by (simp add: filled_def Let_def)

lemma max_nodes_length_filled [simp]: "max_nodes_length (filled LEN max_nodes xs) = max_nodes"
  by (simp add: filled_def Let_def)

lemma elements_num_filled [simp]: "elements_num (filled LEN max_nodes xs) = of_nat (length xs)"
  by (simp add: filled_def Let_def)

lemma nodes_filled_snoc:
  assumes L: "0 < unat LEN" and M: "length xs < unat max_nodes * unat LEN"
  shows "nodes (filled LEN max_nodes (xs @ [x])) =
           (nodes (filled LEN max_nodes xs))
             [length xs div unat LEN :=
                Some ((if length xs mod unat LEN = 0 then create_node LEN
                       else segment (unat LEN) xs (length xs div unat LEN))
                      [length xs mod unat LEN := Some x])]"
    (is "?lhs = ?rhs")
proof (rule nth_equalityI)
  show "length ?lhs = length ?rhs"
    by simp
next
  let ?L = "unat LEN" and ?M = "length xs"
  let ?hi = "?M div ?L" and ?lo = "?M mod ?L"
  fix i
  assume "i < length ?lhs"
  then have i: "i < unat max_nodes"
    by simp
  have split: "?M = ?hi * ?L + ?lo"
    by simp
  have lo: "?lo < ?L"
    using L by simp
  consider "i < ?hi" | "i = ?hi" | "?hi < i"
    by linarith
  then show "?lhs ! i = ?rhs ! i"
  proof cases
    case 1
    then have "(i + 1) * ?L \<le> ?hi * ?L"
      by (intro mult_le_mono1) simp
    then have full: "(i + 1) * ?L \<le> ?M"
      using div_mult_mod_eq [of ?M ?L] by linarith
    then have "i * ?L < ?M" "i * ?L < Suc ?M"
      using L by simp_all
    then show ?thesis
      using 1 i full by (simp add: segment_snoc_full)
  next
    case 2
    have "?hi * ?L < Suc ?M"
      using div_mult_mod_eq [of ?M ?L] by linarith
    moreover have "?lo = 0 \<Longrightarrow> create_node LEN = segment ?L xs ?hi"
      using div_mult_mod_eq [of ?M ?L] by (simp add: create_node_def segment_empty)
    moreover have "?lo \<noteq> 0 \<Longrightarrow> ?hi * ?L < ?M"
      using div_mult_mod_eq [of ?M ?L] by linarith
    ultimately show ?thesis
      using 2 i L by (auto simp: segment_snoc_last)
  next
    case 3
    then have "(?hi + 1) * ?L \<le> i * ?L"
      by (intro mult_le_mono1) simp
    moreover have "(?hi + 1) * ?L = ?hi * ?L + ?L"
      by simp
    ultimately have "Suc ?M \<le> i * ?L"
      using div_mult_mod_eq [of ?M ?L] lo by linarith
    then show ?thesis
      using 3 i by simp
  qed
qed

lemma add_filled:
  assumes L: "0 < unat LEN" and M: "length xs < unat max_nodes * unat LEN"
  shows "add LEN x (filled LEN max_nodes xs) = Some (Inr (filled LEN max_nodes (xs @ [x])))"
proof -
  let ?L = "unat LEN" and ?M = "length xs"
  let ?hi = "?M div ?L" and ?lo = "?M mod ?L"
  let ?a = "filled LEN max_nodes xs"
  let ?n' = "cur_pos (filled LEN max_nodes (xs @ [x]))"
  let ?b = "?a\<lparr>cur_pos := ?n'\<rparr>"
  have le: "?M \<le> unat max_nodes * ?L"
    using M by simp
  have hi: "?hi < unat max_nodes"
    using L M by (simp add: less_mult_imp_div_less)
  have lo: "?lo < ?L"
    using L by simp
  have lo32: "?lo < 2 ^ 32"
    using lo unat_lt_2p32 [of LEN] by simp
  have ni: "unat (node_index (cur_pos ?a)) = ?hi"
    using L le by (rule node_index_filled)
  have ei: "elem_index LEN (cur_pos ?a) = Inr (of_nat ?lo)"
    using L le by (rule elem_index_filled)
  have ulo: "unat (of_nat ?lo :: u32) = ?lo"
    using lo32 by (rule unat_of_nat_u32)
  have zero: "((of_nat ?lo :: u32) = 0) = (?lo = 0)"
    using ulo by (auto simp: word_unat_eq_iff)
  define node where "node = (if ?lo = 0 then create_node LEN else segment ?L xs ?hi)"
  define a1 where "a1 = (if ?lo = 0 then ?b\<lparr>nodes := (nodes ?b)[?hi := Some (create_node LEN)]\<rparr> else ?b)"
  have st: "(if (of_nat ?lo :: u32) = 0 then nodes_store ?b ?hi (Some (create_node LEN)) else Inr ?b)
      = Inr a1"
    using hi by (simp add: zero nodes_store_def a1_def)
  have "?lo \<noteq> 0 \<Longrightarrow> ?hi * ?L < ?M"
    using div_mult_mod_eq [of ?M ?L] by linarith
  then have ld: "nodes_load a1 ?hi = Inr (Some node)"
    using hi by (simp add: nodes_load_def a1_def node_def)
  have len: "length node = ?L"
    by (simp add: node_def create_node_def)
  have res: "a1\<lparr>nodes := (nodes a1)[?hi := Some (node[?lo := Some x])],
                elements_num := elements_num a1 + 1\<rparr> = filled LEN max_nodes (xs @ [x])"
    using nodes_filled_snoc [OF L M, of x]
    by (simp add: a1_def node_def filled_def Let_def)
  have nx: "next' LEN (cur_pos ?a) = Inr ?n'"
    using L M by (rule next'_filled)
  have cp: "cur_pos ?b = ?n'" "elements_num ?b = elements_num ?a"
    by simp_all
  show ?thesis
    by (simp add: add_eq nx add_reserved_def ni ei st await_node_Some [OF ld]
        node_store_def ulo len lo res Let_def del: nodes_filled)
qed

section \<open>Runs of insertions and the replay\<close>

lemma adds_filled:
  assumes "0 < unat LEN" "length xs + length ys \<le> unat max_nodes * unat LEN"
  shows "adds LEN ys (filled LEN max_nodes xs) = Some (Inr (filled LEN max_nodes (xs @ ys)))"
  using assms
proof (induction ys arbitrary: xs)
  case Nil
  then show ?case by simp
next
  case (Cons y ys)
  have "length xs < unat max_nodes * unat LEN"
    using Cons.prems by simp
  then have "add LEN y (filled LEN max_nodes xs) = Some (Inr (filled LEN max_nodes (xs @ [y])))"
    using Cons.prems(1) by (simp add: add_filled)
  moreover have "adds LEN ys (filled LEN max_nodes (xs @ [y])) =
      Some (Inr (filled LEN max_nodes ((xs @ [y]) @ ys)))"
    using Cons.prems by (intro Cons.IH) simp_all
  ultimately show ?case
    by simp
qed

lemma adds_Array:
  assumes "0 < unat LEN" "length xs \<le> unat max_nodes * unat LEN"
  shows "adds LEN xs (Array max_nodes) = Some (Inr (filled LEN max_nodes xs))"
  using adds_filled [of LEN "[]" xs max_nodes] assms by (simp add: filled_Nil)

lemma visit_elements_empty: "visit_elements visit node j j vt = Inr vt"
  by (cases vt) simp

lemma visit_elements_segment:
  assumes "i * L + limit \<le> length xs" "limit \<le> L" "j \<le> limit"
  shows "visit_elements visit (Some (segment L xs i)) j limit (v, tot) =
           Inr (fold visit (take (limit - j) (drop (i * L + j) xs)) v, tot + of_nat (limit - j))"
  using assms
proof (induction "limit - j" arbitrary: j v tot)
  case 0
  then show ?case by simp
next
  case (Suc k)
  then have j: "j < limit" and k: "k = limit - (j + 1)"
    by simp_all
  have jl: "j < length (take L (drop (i * L) xs))"
    using j Suc.prems by simp
  then have ld: "node_load (segment L xs i) j = Inr (xs ! (i * L + j))"
    using j Suc.prems by (simp add: node_load_def segment_def Let_def nth_append)
  have "i * L + j < length xs"
    using j Suc.prems by simp
  then have dr: "drop (i * L + j) xs = xs ! (i * L + j) # drop (i * L + (j + 1)) xs"
    by (simp add: Cons_nth_drop_Suc)
  have "visit_elements visit (Some (segment L xs i)) (j + 1) limit
          (visit (xs ! (i * L + j)) v, tot + 1) =
        Inr (fold visit (take (limit - (j + 1)) (drop (i * L + (j + 1)) xs))
               (visit (xs ! (i * L + j)) v), tot + 1 + of_nat (limit - (j + 1)))"
    using k Suc.prems j by (intro Suc.hyps(1)) simp_all
  moreover have "limit - j = Suc (limit - (j + 1))"
    using j by simp
  ultimately show ?case
    using j ld dr by (subst visit_elements.simps) (simp add: add.assoc)
qed


lemma nodes_load_filled:
  assumes "i < unat max_nodes"
  shows "nodes_load (filled LEN max_nodes xs) i =
           Inr (if i * unat LEN < length xs then Some (segment (unat LEN) xs i) else None)"
  using assms by (simp add: nodes_load_def)

lemma visit_nodes_filled:
  assumes L: "0 < unat LEN" and hi: "length xs div unat LEN \<le> unat max_nodes"
    and i: "i \<le> length xs div unat LEN"
  shows "visit_nodes LEN visit (filled LEN max_nodes xs)
           (length xs div unat LEN) (length xs mod unat LEN) i (v, tot) =
         (if length xs div unat LEN < unat max_nodes
          then Inr (fold visit (drop (i * unat LEN) xs) v,
                    tot + of_nat (length xs - i * unat LEN))
          else Inl OutOfBounds)"
  using i
proof (induction "length xs div unat LEN - i" arbitrary: i v tot)
  case 0
  let ?L = "unat LEN" and ?M = "length xs"
  let ?hi = "?M div ?L" and ?lo = "?M mod ?L"
  from 0 have i: "i = ?hi"
    by simp
  have M: "?hi * ?L + ?lo = ?M"
    by (rule div_mult_mod_eq)
  have lo: "?M - ?hi * ?L = ?lo"
    using M by linarith
  show ?case
  proof (cases "?hi < unat max_nodes")
    case False
    then have "nodes_load (filled LEN max_nodes xs) ?hi = Inl OutOfBounds"
      by (simp add: nodes_load_def)
    then show ?thesis
      unfolding i using False
      by (subst visit_nodes.simps)
        (simp add: Let_def del: visit_elements.simps visit_nodes.simps)
  next
    case True
    have ve: "visit_elements visit
            (if ?hi * ?L < ?M then Some (segment ?L xs ?hi) else None) 0 ?lo (v, tot) =
          Inr (fold visit (drop (?hi * ?L) xs) v, tot + of_nat ?lo)"
    proof (cases "?lo = 0")
      case True
      then have "?hi * ?L = ?M"
        using M by simp
      then have "drop (?hi * ?L) xs = []"
        by simp
      then show ?thesis
        using True by (simp add: visit_elements_empty)
    next
      case False
      then have lt: "?hi * ?L < ?M"
        using M by linarith
      have "?lo \<le> ?L"
        using L by (simp add: less_imp_le)
      then have "visit_elements visit (Some (segment ?L xs ?hi)) 0 ?lo (v, tot) =
          Inr (fold visit (take (?lo - 0) (drop (?hi * ?L + 0) xs)) v, tot + of_nat (?lo - 0))"
        using M by (intro visit_elements_segment) simp_all
      then show ?thesis
        using lt lo by simp
    qed
    have fin: "visit_nodes LEN visit (filled LEN max_nodes xs) ?hi ?lo (Suc ?hi) vt = Inr vt" for vt
      by (subst visit_nodes.simps) simp
    show ?thesis
      unfolding i using True
      by (subst visit_nodes.simps)
        (simp add: nodes_load_filled [OF True] ve lo fin Let_def
          del: visit_elements.simps visit_nodes.simps)
  qed
next
  case (Suc k)
  let ?L = "unat LEN" and ?M = "length xs"
  let ?hi = "?M div ?L" and ?lo = "?M mod ?L"
  from Suc have i: "i < ?hi" and k: "k = ?hi - (i + 1)"
    by simp_all
  have M: "?hi * ?L + ?lo = ?M"
    by (rule div_mult_mod_eq)
  have "(i + 1) * ?L \<le> ?hi * ?L"
    using i by (intro mult_le_mono1) simp
  moreover have "(i + 1) * ?L = i * ?L + ?L"
    by simp
  ultimately have full: "i * ?L + ?L \<le> ?M"
    using M by linarith
  then have lt: "i * ?L < ?M"
    using L by linarith
  have im: "i < unat max_nodes"
    using i hi by simp
  have ve: "visit_elements visit (Some (segment ?L xs i)) 0 ?L (v, tot) =
      Inr (fold visit (take (?L - 0) (drop (i * ?L + 0) xs)) v, tot + of_nat (?L - 0))"
    using full by (intro visit_elements_segment) simp_all
  have ih: "visit_nodes LEN visit (filled LEN max_nodes xs) ?hi ?lo (i + 1)
        (fold visit (take ?L (drop (i * ?L) xs)) v, tot + of_nat ?L) =
      (if ?hi < unat max_nodes
       then Inr (fold visit (drop ((i + 1) * ?L) xs) (fold visit (take ?L (drop (i * ?L) xs)) v),
           tot + of_nat ?L + of_nat (?M - (i + 1) * ?L))
       else Inl OutOfBounds)"
    using k i by (intro Suc.hyps(1)) simp_all
  have "drop ((i + 1) * ?L) xs = drop ?L (drop (i * ?L) xs)"
    by (simp add: add.commute)
  then have "take ?L (drop (i * ?L) xs) @ drop ((i + 1) * ?L) xs = drop (i * ?L) xs"
    by (simp only: append_take_drop_id)
  then have fl: "fold visit (drop ((i + 1) * ?L) xs) (fold visit (take ?L (drop (i * ?L) xs)) v) =
      fold visit (drop (i * ?L) xs) v"
    by (metis fold_append comp_apply)
  have "?M - i * ?L = ?L + (?M - (i + 1) * ?L)"
    using full by (simp add: algebra_simps)
  then have cnt: "tot + of_nat ?L + of_nat (?M - (i + 1) * ?L) = tot + (of_nat (?M - i * ?L) :: u32)"
    by (simp add: add.assoc)
  have step: "visit_nodes LEN visit (filled LEN max_nodes xs) ?hi ?lo i (v, tot) =
      visit_nodes LEN visit (filled LEN max_nodes xs) ?hi ?lo (i + 1)
        (fold visit (take ?L (drop (i * ?L) xs)) v, tot + of_nat ?L)"
    using i ve
    by (subst visit_nodes.simps)
      (simp add: nodes_load_filled [OF im] lt Let_def
        del: visit_elements.simps visit_nodes.simps)
  show ?case
    by (simp only: step ih fl cnt)
qed

lemma iterate_elements_filled_cases:
  assumes L: "0 < unat LEN" and M: "length xs \<le> unat max_nodes * unat LEN"
  shows "iterate_elements LEN visit (filled LEN max_nodes xs) v =
           (if length xs < unat max_nodes * unat LEN then Inr (fold visit xs v)
            else Inl OutOfBounds)"
proof -
  let ?L = "unat LEN" and ?M = "length xs"
  have hi: "?M div ?L \<le> unat max_nodes"
    using M L by (rule div_le_max)
  have iff: "(?M div ?L < unat max_nodes) = (?M < unat max_nodes * ?L)"
    using L by (simp add: div_less_iff_less_mult)
  have lo32: "?M mod ?L < 2 ^ 32"
    using L unat_lt_2p32 [of LEN] mod_less_divisor [of ?L ?M] by linarith
  have "visit_nodes LEN visit (filled LEN max_nodes xs) (?M div ?L) (?M mod ?L) 0 (v, 0) =
      (if ?M div ?L < unat max_nodes
       then Inr (fold visit (drop (0 * ?L) xs) v, 0 + of_nat (?M - 0 * ?L))
       else Inl OutOfBounds)"
    using L hi by (rule visit_nodes_filled) simp
  then show ?thesis
    using lo32 iff
    by (simp add: iterate_elements_def Let_def elem_index_filled [OF L M]
        node_index_filled [OF L M] unat_of_nat_u32)
qed

lemma iterate_elements_filled:
  assumes L: "0 < unat LEN" and M: "length xs < unat max_nodes * unat LEN"
  shows "iterate_elements LEN visit (filled LEN max_nodes xs) v = Inr (fold visit xs v)"
  using iterate_elements_filled_cases [of LEN xs max_nodes visit v] assms by simp

section \<open>The reset loop\<close>

lemma cleared_0 [simp]: "cleared 0 a = a"
  by (simp add: cleared_def)

lemma nodes_load_cleared: "i \<le> k \<Longrightarrow> nodes_load (cleared i a) k = nodes_load a k"
  by (auto simp: nodes_load_def cleared_def nth_append min_def)

lemma nodes_store_cleared:
  assumes "allocated a i"
  shows "nodes_store (cleared i a) i None = Inr (cleared (Suc i) a)"
proof -
  from assms have i: "i < unat (max_nodes_length a)" "i < length (nodes a)"
    by (auto simp: allocated_def nodes_load_def split: if_splits)
  then have "(replicate i None @ drop i (nodes a))[i := None] =
      replicate (Suc i) None @ drop (Suc i) (nodes a)"
    by (simp add: list_update_append replicate_append_same Cons_nth_drop_Suc [symmetric])
  then show ?thesis
    using i by (simp add: nodes_store_def cleared_def min_def)
qed

lemma free_nodes_cleared:
  assumes "i \<le> Suc (unat (node_index pos))"
  shows "free_nodes (cleared i a) pos i =
           (case find (\<lambda>k. \<not> allocated a k) [i..<Suc (unat (node_index pos))] of
              None \<Rightarrow> Inr (cleared (Suc (unat (node_index pos))) a)
            | Some k \<Rightarrow> Inl (free_failure a k))"
  using assms
proof (induction "Suc (unat (node_index pos)) - i" arbitrary: i)
  case 0
  then have "i = Suc (unat (node_index pos))"
    by simp
  then show ?case
    by (subst free_nodes.simps) simp
next
  case (Suc n)
  then have i: "i \<le> unat (node_index pos)"
    by simp
  then have upt: "[i..<Suc (unat (node_index pos))] = i # [Suc i..<Suc (unat (node_index pos))]"
    by (simp add: upt_conv_Cons)
  show ?case
  proof (cases "allocated a i")
    case True
    then obtain node where ld: "nodes_load a i = Inr (Some node)"
      by (auto simp: allocated_def split: sum.splits option.splits)
    have ih: "free_nodes (cleared (Suc i) a) pos (Suc i) =
        (case find (\<lambda>k. \<not> allocated a k) [Suc i..<Suc (unat (node_index pos))] of
           None \<Rightarrow> Inr (cleared (Suc (unat (node_index pos))) a)
         | Some k \<Rightarrow> Inl (free_failure a k))"
      using Suc.hyps(2) i by (intro Suc.hyps(1)) simp_all
    show ?thesis
      using i True ih
      by (subst free_nodes.simps)
        (simp add: upt nodes_load_cleared ld free_node_def nodes_store_cleared
          del: free_nodes.simps upt_Suc)
  next
    case False
    then have "(case nodes_load a i of Inl e \<Rightarrow> Inl e
         | Inr node \<Rightarrow> (case free_node node of Inl e \<Rightarrow> Inl e | Inr u \<Rightarrow> X u)) =
        Inl (free_failure a i)" for X :: "unit \<Rightarrow> error + 'e Array"
      by (auto simp: allocated_def free_failure_def free_node_def split: sum.splits option.splits)
    then show ?thesis
      using i False
      by (subst free_nodes.simps)
        (simp add: upt nodes_load_cleared del: free_nodes.simps upt_Suc)
  qed
qed

lemma reset_eq:
  "reset a =
     (case find (\<lambda>k. \<not> allocated a k) [0..<Suc (unat (node_index (cur_pos a)))] of
        None \<Rightarrow> Inr (cleared (Suc (unat (node_index (cur_pos a)))) a
                      \<lparr>elements_num := 0, cur_pos := 0\<rparr>)
      | Some k \<Rightarrow> Inl (free_failure a k))"
  using free_nodes_cleared [of 0 "cur_pos a" a]
  by (simp add: reset_def split: option.splits del: upt_Suc)


lemma allocated_filled:
  "allocated (filled LEN max_nodes xs) k = (k < unat max_nodes \<and> k * unat LEN < length xs)"
  by (simp add: allocated_def nodes_load_def)

lemma free_failure_filled:
  "free_failure (filled LEN max_nodes xs) k =
     (if k < unat max_nodes then NullDereference else OutOfBounds)"
  by (simp add: free_failure_def nodes_load_def)

lemma find_append_case:
  "find P (xs @ ys) = (case find P xs of None \<Rightarrow> find P ys | Some x \<Rightarrow> Some x)"
  by (induction xs) auto

lemma find_upt_last:
  assumes "\<forall>k<n. \<not> P k" "P n"
  shows "find P [0..<Suc n] = Some n"
proof -
  have "find P [0..<n] = None"
    using assms(1) by (simp add: find_None_iff)
  then show ?thesis
    using assms(2) by (simp add: find_append_case)
qed

lemma reset_filled:
  assumes L: "0 < unat LEN" and M: "length xs \<le> unat max_nodes * unat LEN"
  shows "reset (filled LEN max_nodes xs) =
           (if xs \<noteq> [] \<and> length xs mod unat LEN \<noteq> 0 then Inr (Array max_nodes)
            else if length xs < unat max_nodes * unat LEN then Inl NullDereference
            else Inl OutOfBounds)"
proof -
  let ?L = "unat LEN" and ?M = "length xs" and ?a = "filled LEN max_nodes xs"
  let ?hi = "?M div ?L"
  have ni: "unat (node_index (cur_pos ?a)) = ?hi"
    using L M by (rule node_index_filled)
  have split: "?hi * ?L + ?M mod ?L = ?M"
    by (rule div_mult_mod_eq)
  have below: "k * ?L < ?M" if "k < ?hi" for k
  proof -
    have "(k + 1) * ?L \<le> ?hi * ?L"
      using that by (intro mult_le_mono1) simp
    moreover have "(k + 1) * ?L = k * ?L + ?L"
      by simp
    ultimately show ?thesis
      using split L by linarith
  qed
  have hi_le: "?hi \<le> unat max_nodes"
    using M L by (rule div_le_max)
  show ?thesis
  proof (cases "?M mod ?L = 0")
    case True
    then have eq: "?hi * ?L = ?M"
      using split by simp
    have "find (\<lambda>k. \<not> allocated ?a k) [0..<Suc ?hi] = Some ?hi"
      using hi_le below eq by (intro find_upt_last) (auto simp: allocated_filled)
    moreover have "(?hi < unat max_nodes) = (?M < unat max_nodes * ?L)"
      using eq L by (metis mult_less_cancel2)
    ultimately show ?thesis
      using True by (simp add: reset_eq ni free_failure_filled del: upt_Suc)
  next
    case False
    then have lt: "?hi * ?L < ?M"
      using split by linarith
    then have "?hi * ?L < unat max_nodes * ?L"
      using M by linarith
    then have hi: "?hi < unat max_nodes"
      by simp
    have "find (\<lambda>k. \<not> allocated ?a k) [0..<Suc ?hi] = None"
      using hi below lt by (auto simp: find_None_iff allocated_filled less_Suc_eq)
    moreover have "cleared (Suc ?hi) ?a\<lparr>elements_num := 0, cur_pos := 0\<rparr> = Array max_nodes"
    proof -
      have above: "\<not> k * ?L < ?M" if "?hi < k" for k
      proof -
        have "(?hi + 1) * ?L \<le> k * ?L"
          using that by (intro mult_le_mono1) simp
        moreover have "(?hi + 1) * ?L = ?hi * ?L + ?L"
          by simp
        moreover have "?M mod ?L < ?L"
          using L by simp
        ultimately show ?thesis
          using split by linarith
      qed
      have above': "\<not> ?L + (?hi + i) * ?L < ?M" for i
        using above [of "Suc (?hi + i)"] by simp
      have "drop (Suc ?hi) (nodes ?a) = replicate (unat max_nodes - Suc ?hi) None"
        using above' by (intro nth_equalityI) simp_all
      moreover have "min (Suc ?hi) (length (nodes ?a)) = Suc ?hi"
        using hi by simp
      moreover have "replicate (Suc ?hi) None @ replicate (unat max_nodes - Suc ?hi) None =
          replicate (unat max_nodes) (None :: 'a Node option)"
        using hi by (simp only: replicate_add [symmetric]) simp
      ultimately have "replicate (min (Suc ?hi) (length (nodes ?a))) None @
          drop (Suc ?hi) (nodes ?a) = replicate (unat max_nodes) None"
        by (simp only:)
      then show ?thesis
        by (simp add: cleared_def Array_def filled_def Let_def)
    qed
    moreover have "xs \<noteq> []"
      using False by auto
    ultimately show ?thesis
      using False by (simp add: reset_eq ni del: upt_Suc)
  qed
qed

section \<open>Addresses and offsets\<close>

lemma uint_le_mask:
  fixes x :: u64
  assumes "x \<le> mask w"
  shows "uint x < 2 ^ w"
proof -
  from assms have "uint x \<le> uint (mask w :: u64)"
    by (simp add: word_le_def)
  then have "uint x \<le> mask (min 64 w)"
    by (simp add: uint_mask_eq)
  then have "uint x < 2 ^ min 64 w"
    by (simp add: mask_eq_exp_minus_1)
  also have "\<dots> \<le> (2 :: int) ^ w"
    by (rule power_increasing) simp_all
  finally show ?thesis .
qed

lemma masking_id:
  fixes x :: u64
  assumes "x \<le> mask w"
  shows "x AND mask w = x"
  using uint_le_mask [OF assms] by (simp add: mask_eq_iff)

lemma unat_le_mask32:
  fixes x :: u64
  assumes "x \<le> mask w" "w \<le> 32"
  shows "unat x < 2 ^ 32"
proof -
  have "uint x < 2 ^ w"
    using assms(1) by (rule uint_le_mask)
  also have "\<dots> \<le> (2 :: int) ^ 32"
    using assms(2) by (intro power_increasing) simp_all
  finally have "uint x < 2 ^ 32" .
  then show ?thesis
    using of_nat_less_iff by fastforce
qed

lemma ucast_ucast_small:
  fixes x :: u64
  assumes "unat x < 2 ^ 32"
  shows "ucast (ucast x :: u32) = x"
proof -
  have "unat (ucast x :: u32) = unat x"
    using assms by (simp add: unsigned_ucast_eq take_bit_eq_mod)
  then show ?thesis
    by (simp add: word_unat_eq_iff)
qed

lemma aligned_mult_div:
  fixes d :: u64
  assumes "unat d mod unat HeapWordSize = 0"
  shows "HeapWordSize * (d div HeapWordSize) = d"
proof -
  have lt: "unat d < 2 ^ 64"
    by (rule unat_lt_2p64)
  then have "unat d div 8 < 2 ^ 64"
    by simp
  then have "unat (HeapWordSize * (d div HeapWordSize)) = (8 * (unat d div 8)) mod 2 ^ 64"
    by (simp add: HeapWordSize_def unat_word_ariths unat_div)
  moreover have "8 * (unat d div 8) = unat d"
    using assms by (simp add: HeapWordSize_def mod_eq_0_iff_dvd)
  ultimately show ?thesis
    using lt by (simp add: word_unat_eq_iff)
qed

lemma cast_roundtrip:
  assumes m: "offset_mask t = mask w" "w \<le> 32" and r: "in_region t obj"
  shows "cast_from_oop_addr t obj = Inr (ucast (pointer_delta obj (bottom t)))"
    and "cast_from_offset t (ucast (pointer_delta obj (bottom t))) = obj"
    and "unat (ucast (pointer_delta obj (bottom t)) :: u32) * 8 = unat obj - unat (bottom t)"
proof -
  let ?d = "pointer_delta obj (bottom t)"
  have le: "?d \<le> mask w"
    using r m by (simp add: in_region_def)
  then have id: "?d AND mask w = ?d"
    by (rule masking_id)
  show "cast_from_oop_addr t obj = Inr (ucast ?d)"
    using le id m by (simp add: cast_from_oop_addr_def Let_def)
  have small: "unat ?d < 2 ^ 32"
    using le m(2) by (rule unat_le_mask32)
  have rt: "ucast (ucast ?d :: u32) = ?d"
    using small by (rule ucast_ucast_small)
  have al: "unat (obj - bottom t) mod unat HeapWordSize = 0"
    using r by (simp add: in_region_def)
  have "HeapWordSize * ?d = obj - bottom t"
    unfolding pointer_delta_def using al by (rule aligned_mult_div)
  then show "cast_from_offset t (ucast ?d) = obj"
    by (simp add: cast_from_offset_def rt)
  have "unat (ucast ?d :: u32) = unat ?d"
    using rt by (metis unat_ucast_u32)
  moreover have "unat ?d = unat (obj - bottom t) div 8"
    by (simp add: pointer_delta_def HeapWordSize_def unat_div)
  moreover have "unat (obj - bottom t) = unat obj - unat (bottom t)"
    using r by (simp add: in_region_def unat_sub)
  moreover have "unat (obj - bottom t) div 8 * 8 = unat (obj - bottom t)"
    using al by (simp add: HeapWordSize_def mod_eq_0_iff_dvd)
  ultimately show "unat (ucast ?d :: u32) * 8 = unat obj - unat (bottom t)"
    by simp
qed


lemma in_region_nodes_array [simp]: "in_region (t\<lparr>nodes_array := a\<rparr>) obj = in_region t obj"
  by (simp add: in_region_def)

lemma offset_of_nodes_array [simp]: "offset_of (t\<lparr>nodes_array := a\<rparr>) = offset_of t"
  by (rule ext) (simp add: offset_of_def)

lemma unat_NODE_LENGTH: "unat NODE_LENGTH = 256"
  by (simp add: NODE_LENGTH_def)

lemma record_obj_filled:
  assumes m: "offset_mask t = mask w" "w \<le> 32" and r: "in_region t obj"
    and a: "nodes_array t = filled NODE_LENGTH max_nodes xs"
    and c: "length xs < unat max_nodes * 256"
  shows "record_obj t obj =
           Some (Inr (t\<lparr>nodes_array := filled NODE_LENGTH max_nodes (xs @ [offset_of t obj])\<rparr>))"
proof -
  have "cast_from_oop_addr t obj = Inr (offset_of t obj)"
    unfolding offset_of_def using m r by (rule cast_roundtrip(1))
  moreover have "add NODE_LENGTH (offset_of t obj) (filled NODE_LENGTH max_nodes xs) =
      Some (Inr (filled NODE_LENGTH max_nodes (xs @ [offset_of t obj])))"
    using c by (intro add_filled) (simp_all add: unat_NODE_LENGTH)
  ultimately show ?thesis
    by (simp add: record_obj_def a)
qed

lemma records_filled:
  assumes "offset_mask t = mask w" "w \<le> 32" "\<forall>obj\<in>set objs. in_region t obj"
    and "nodes_array t = filled NODE_LENGTH max_nodes xs"
    and "length xs + length objs \<le> unat max_nodes * 256"
  shows "records objs t =
           Some (Inr (t\<lparr>nodes_array :=
                         filled NODE_LENGTH max_nodes (xs @ map (offset_of t) objs)\<rparr>))"
  using assms
proof (induction objs arbitrary: t xs)
  case Nil
  then show ?case by simp
next
  case (Cons obj objs)
  let ?t' = "t\<lparr>nodes_array := filled NODE_LENGTH max_nodes (xs @ [offset_of t obj])\<rparr>"
  have "record_obj t obj = Some (Inr ?t')"
    using Cons.prems by (intro record_obj_filled [where w = w]) simp_all
  moreover have "records objs ?t' =
      Some (Inr (?t'\<lparr>nodes_array :=
        filled NODE_LENGTH max_nodes ((xs @ [offset_of t obj]) @ map (offset_of ?t') objs)\<rparr>))"
    using Cons.prems by (intro Cons.IH) simp_all
  ultimately show ?case
    by simp
qed

lemma fold_snoc: "fold (\<lambda>x acc. acc @ [x]) xs ys = ys @ xs"
  by (induction xs arbitrary: ys) simp_all

lemma unat_cast_from_offset:
  assumes "offset_mask t = mask w" "w \<le> 32" "in_region t obj"
  shows "unat (cast_from_offset t (offset_of t obj)) = unat (bottom t) + 8 * unat (offset_of t obj)"
proof -
  have "cast_from_offset t (offset_of t obj) = obj"
    unfolding offset_of_def using assms by (rule cast_roundtrip(2))
  moreover have "unat (offset_of t obj) * 8 = unat obj - unat (bottom t)"
    unfolding offset_of_def using assms by (rule cast_roundtrip(3))
  moreover have "unat (bottom t) \<le> unat obj"
    using assms(3) by (simp add: in_region_def word_le_nat_alt)
  ultimately show ?thesis
    by simp
qed

lemma strict_sorted_remdups_adj:
  fixes xs :: "'a :: linorder list"
  assumes "sorted xs"
  shows "sorted_wrt (<) (remdups_adj xs)"
  using assms
proof (induction xs rule: remdups_adj.induct)
  case (3 x y xs)
  then show ?case
    by auto
qed simp_all

lemma visits_sorted_list:
  assumes m: "offset_mask t = mask w" "w \<le> 32" and r: "\<forall>obj\<in>set objs. in_region t obj"
  shows "map (cast_from_offset t) (normalize (map (offset_of t) objs)) =
           sorted_list_of_set (set objs)"
proof -
  let ?offs = "map (offset_of t) objs"
  let ?vs = "map (cast_from_offset t) (normalize ?offs)"
  have mono: "cast_from_offset t x < cast_from_offset t y"
    if "x \<in> set ?offs" "y \<in> set ?offs" "x < y" for x y
  proof -
    from that obtain a b where a: "a \<in> set objs" "x = offset_of t a"
      and b: "b \<in> set objs" "y = offset_of t b"
      by auto
    have "unat (cast_from_offset t x) = unat (bottom t) + 8 * unat x"
      using a r m by (simp add: unat_cast_from_offset)
    moreover have "unat (cast_from_offset t y) = unat (bottom t) + 8 * unat y"
      using b r m by (simp add: unat_cast_from_offset)
    ultimately show ?thesis
      using that(3) by (simp add: word_less_nat_alt)
  qed
  have sn: "sorted_wrt (<) (normalize ?offs)"
    by (simp add: normalize_def strict_sorted_remdups_adj)
  have setn: "set (normalize ?offs) = set ?offs"
    by (simp add: normalize_def)
  have "sorted_wrt (\<lambda>x y. cast_from_offset t x < cast_from_offset t y) (normalize ?offs)"
    using sn by (rule sorted_wrt_mono_rel [rotated]) (simp add: setn mono)
  then have "sorted_wrt (<) ?vs"
    by (simp add: sorted_wrt_map)
  then have "sorted ?vs" "distinct ?vs"
    by (simp_all add: strict_sorted_iff)
  moreover have "set ?vs = set objs"
  proof -
    have "cast_from_offset t (offset_of t obj) = obj" if "obj \<in> set objs" for obj
      unfolding offset_of_def using m r that by (intro cast_roundtrip(2)) simp_all
    then show ?thesis
      by (force simp: setn image_iff)
  qed
  ultimately show ?thesis
    by (metis sorted_list_of_set.idem_if_sorted_distinct)
qed
lemma next'_asserts:
  assumes "next' LEN n = Inr n'"
  shows "unat (low n) < unat LEN" and "unat (node_index n) < 2 ^ 32 - 1"
proof -
  from assms have a: "low n < ucast LEN" and b: "high n < HIGH_MASK"
    by (auto simp: next'_def Let_def split: if_splits)
  show "unat (low n) < unat LEN"
    using a by (simp add: word_less_nat_alt)
  show "unat (node_index n) < 2 ^ 32 - 1"
    using b by (simp add: word_less_nat_alt unat_HIGH_MASK unat_high_node_index)
qed

lemma elem_index_Inr:
  assumes "elem_index LEN n = Inr lo"
  shows "unat (low n) < unat LEN" and "unat lo = unat (low n)"
proof -
  from assms have a: "low n < ucast LEN" and b: "lo = ucast (low n)"
    by (auto simp: elem_index_def split: if_splits)
  show c: "unat (low n) < unat LEN"
    using a by (simp add: word_less_nat_alt)
  have "unat (low n) < 2 ^ 32"
    using c unat_lt_2p32 [of LEN] by simp
  then show "unat lo = unat (low n)"
    by (simp add: b unsigned_ucast_eq take_bit_eq_mod)
qed


lemma nodes_store_cur_pos:
  "nodes_store a i p = Inr a' \<Longrightarrow> cur_pos a' = cur_pos a"
  by (auto simp: nodes_store_def split: if_splits)

lemma add_reserved_cur_pos:
  assumes "add_reserved LEN elem pos a = Some (Inr a')"
  shows "cur_pos a' = cur_pos a"
  using assms
  by (auto simp: add_reserved_def Let_def dest: nodes_store_cur_pos
      split: sum.splits if_splits option.splits)

section \<open>Runs from a fresh log\<close>

lemma count_after_eq:
  assumes "0 < unat LEN" "length xs \<le> unat max_nodes * unat LEN"
  shows "count_after LEN max_nodes xs = Some (length xs mod 2 ^ 32)"
  using assms by (simp add: count_after_def adds_Array objs_num_def unat_of_nat)

lemma replay_after_eq:
  assumes "0 < unat LEN" "length xs \<le> unat max_nodes * unat LEN"
  shows "replay_after LEN max_nodes xs =
           Some (if length xs < unat max_nodes * unat LEN then Inr xs else Inl OutOfBounds)"
  using assms
  by (simp add: replay_after_def adds_Array iterate_elements_filled_cases fold_snoc)

lemma reset_after_eq:
  assumes "0 < unat LEN" "length xs \<le> unat max_nodes * unat LEN"
  shows "reset_after LEN max_nodes xs =
           Some (if xs \<noteq> [] \<and> length xs mod unat LEN \<noteq> 0 then Inr (Array max_nodes)
                 else if length xs < unat max_nodes * unat LEN then Inl NullDereference
                 else Inl OutOfBounds)"
  using assms by (simp add: reset_after_def adds_Array reset_filled)

lemma filled_layout:
  assumes "0 < unat LEN" "k < length xs" "length xs \<le> unat max_nodes * unat LEN"
  shows "\<exists>node. nodes (filled LEN max_nodes xs) ! (k div unat LEN) = Some node \<and>
           node ! (k mod unat LEN) = Some (xs ! k)"
proof -
  let ?L = "unat LEN" and ?i = "k div unat LEN" and ?j = "k mod unat LEN"
  have k: "?i * ?L + ?j = k"
    by (rule div_mult_mod_eq)
  have j: "?j < ?L"
    using assms(1) by simp
  have "k < unat max_nodes * ?L"
    using assms by simp
  then have i: "?i < unat max_nodes"
    using assms(1) by (simp add: less_mult_imp_div_less)
  have lt: "?i * ?L < length xs"
    using k assms(2) by linarith
  have "?j < length xs - ?i * ?L"
    using k assms(2) by linarith
  then have "?j < length (take ?L (drop (?i * ?L) xs))"
    using j by simp
  then have "segment ?L xs ?i ! ?j = Some (xs ! (?i * ?L + ?j))"
    using lt by (simp add: segment_def Let_def nth_append)
  then show ?thesis
    using i lt by simp
qed

lemma ceil_div_iff:
  fixes i M L :: nat
  assumes "0 < L"
  shows "(i < (M + L - 1) div L) = (i * L < M)"
proof
  assume "i < (M + L - 1) div L"
  then have "Suc i \<le> (M + L - 1) div L"
    by simp
  then have "Suc i * L \<le> M + L - 1"
    using assms by (simp add: less_eq_div_iff_mult_less_eq)
  then show "i * L < M"
    using assms by simp
next
  assume "i * L < M"
  then have "Suc i * L \<le> M + L - 1"
    using assms by simp
  then have "Suc i \<le> (M + L - 1) div L"
    using assms by (simp add: less_eq_div_iff_mult_less_eq)
  then show "i < (M + L - 1) div L"
    by simp
qed

lemma filter_upt_less:
  "n \<le> m \<Longrightarrow> length (filter (\<lambda>i. i < n) [0..<m]) = n"
proof (induction m)
  case 0
  then show ?case by simp
next
  case (Suc m)
  show ?case
  proof (cases "n = Suc m")
    case True
    have "filter (\<lambda>i. i < Suc m) [0..<Suc m] = [0..<Suc m]"
      by (rule filter_True) simp
    then show ?thesis
      using True by simp
  next
    case False
    then show ?thesis
      using Suc by simp
  qed
qed

lemma allocated_count_filled:
  assumes L: "0 < unat LEN" and M: "length xs \<le> unat max_nodes * unat LEN"
  shows "length (filter (\<lambda>p. p \<noteq> None) (nodes (filled LEN max_nodes xs))) =
           (length xs + unat LEN - 1) div unat LEN"
proof -
  let ?L = "unat LEN" and ?M = "length xs"
  let ?c = "(?M + ?L - 1) div ?L"
  have "?c * ?L \<le> ?M + ?L - 1"
    by simp
  also have "\<dots> < (unat max_nodes + 1) * ?L"
    using L M by simp
  finally have "?c * ?L < (unat max_nodes + 1) * ?L" .
  then have "?c < unat max_nodes + 1"
    by (simp only: mult_less_cancel2)
  then have c: "?c \<le> unat max_nodes"
    by simp
  have "length (filter (\<lambda>p. p \<noteq> None) (nodes (filled LEN max_nodes xs))) =
      length (filter (\<lambda>i. i * ?L < ?M) [0..<unat max_nodes])"
    by (simp add: filter_map o_def)
  also have "\<dots> = length (filter (\<lambda>i. i < ?c) [0..<unat max_nodes])"
    using L by (simp only: ceil_div_iff)
  also have "\<dots> = ?c"
    using c by (rule filter_upt_less)
  finally show ?thesis .
qed

lemma no_out_of_bounds_below_capacity:
  assumes "length xs < unat max_nodes * unat LEN"
  shows "\<exists>a. adds LEN xs (Array max_nodes) = Some (Inr a) \<and>
           (\<exists>a'. add LEN x a = Some (Inr a')) \<and>
           iterate_elements LEN visit a v = Inr (fold visit xs v) \<and>
           reset a \<noteq> Inl OutOfBounds"
proof -
  have L: "0 < unat LEN"
    using assms by (cases "unat LEN") simp_all
  have le: "length xs \<le> unat max_nodes * unat LEN"
    using assms by simp
  have "adds LEN xs (Array max_nodes) = Some (Inr (filled LEN max_nodes xs))"
    using L le by (rule adds_Array)
  moreover have "add LEN x (filled LEN max_nodes xs) =
      Some (Inr (filled LEN max_nodes (xs @ [x])))"
    using L assms by (rule add_filled)
  moreover have "iterate_elements LEN visit (filled LEN max_nodes xs) v = Inr (fold visit xs v)"
    using L assms by (rule iterate_elements_filled)
  moreover have "reset (filled LEN max_nodes xs) \<noteq> Inl OutOfBounds"
    using assms by (simp add: reset_filled [OF L le])
  ultimately show ?thesis
    by blast
qed

section \<open>Calls that do not complete\<close>

lemma await_node_returns:
  assumes "await_node a hi = Some r"
  shows "nodes_load a hi \<noteq> Inr None"
  by (rule await_node.raw_induct [OF _ assms]) (auto split: sum.splits option.splits)

lemma await_node_null:
  assumes "nodes_load a hi = Inr None"
  shows "await_node a hi = None"
  using assms await_node_returns [of a hi] by (cases "await_node a hi") auto

lemma adds_append:
  "adds LEN (xs @ ys) a =
     (case adds LEN xs a of
        None \<Rightarrow> None
      | Some (Inl e) \<Rightarrow> Some (Inl e)
      | Some (Inr a') \<Rightarrow> adds LEN ys a')"
  by (induction xs arbitrary: a) (auto split: option.splits sum.splits)

lemma add_zero_length:
  assumes "unat LEN = 0"
  shows "add LEN x a = Some (Inl AssertionFailed)"
proof -
  have "LEN = 0"
    using assms by (simp add: unat_eq_0)
  then have "next' LEN (cur_pos a) = Inl AssertionFailed"
    by (simp add: next'_def Let_def)
  then show ?thesis
    by (simp add: add_eq)
qed

lemma add_full:
  assumes L: "0 < unat LEN" and M: "length xs = unat max_nodes * unat LEN"
  shows "\<exists>e. add LEN x (filled LEN max_nodes xs) = Some (Inl e)"
proof -
  let ?a = "filled LEN max_nodes xs"
  have le: "length xs \<le> unat max_nodes * unat LEN"
    using M by simp
  have ni: "unat (node_index (cur_pos ?a)) = unat max_nodes"
    using node_index_filled [OF L le] L M by simp
  have ei: "elem_index LEN (cur_pos ?a) = Inr 0"
    using elem_index_filled [OF L le] M by simp
  show ?thesis
  proof (cases "next' LEN (cur_pos ?a)")
    case (Inl e)
    then show ?thesis
      by (simp add: add_eq)
  next
    case (Inr np)
    have "nodes_store (?a\<lparr>cur_pos := np\<rparr>) (unat max_nodes) (Some (create_node LEN)) =
        Inl OutOfBounds"
      by (simp add: nodes_store_def)
    then show ?thesis
      using Inr by (simp add: add_eq add_reserved_def ni ei Let_def)
  qed
qed

lemma adds_completes:
  assumes "adds LEN xs (Array max_nodes) = Some (Inr a)"
  shows "a = filled LEN max_nodes xs"
    and "length xs \<le> unat max_nodes * unat LEN"
    and "xs \<noteq> [] \<Longrightarrow> 0 < unat LEN"
proof -
  have nz: "0 < unat LEN" if "xs \<noteq> []"
  proof (rule ccontr)
    assume "\<not> 0 < unat LEN"
    then have "unat LEN = 0"
      by simp
    then have "add LEN (hd xs) (Array max_nodes) = Some (Inl AssertionFailed)"
      by (rule add_zero_length)
    then show False
      using assms that by (cases xs) simp_all
  qed
  then show "xs \<noteq> [] \<Longrightarrow> 0 < unat LEN" .
  show le: "length xs \<le> unat max_nodes * unat LEN"
  proof (rule ccontr)
    assume "\<not> length xs \<le> unat max_nodes * unat LEN"
    then have gt: "unat max_nodes * unat LEN < length xs"
      by simp
    then have ne: "xs \<noteq> []"
      by auto
    let ?c = "unat max_nodes * unat LEN"
    let ?p = "take ?c xs"
    obtain y ys where sp: "drop ?c xs = y # ys"
      using gt by (cases "drop ?c xs") simp_all
    have xs: "xs = ?p @ y # ys"
      using sp by (metis append_take_drop_id)
    have lp: "length ?p = ?c"
      using gt by simp
    have "adds LEN ?p (Array max_nodes) = Some (Inr (filled LEN max_nodes ?p))"
      using nz [OF ne] lp by (intro adds_Array) simp_all
    moreover obtain e where "add LEN y (filled LEN max_nodes ?p) = Some (Inl e)"
      using add_full [OF nz [OF ne] lp] by blast
    ultimately have "adds LEN (?p @ y # ys) (Array max_nodes) = Some (Inl e)"
      by (simp add: adds_append)
    then show False
      using assms xs by simp
  qed
  show "a = filled LEN max_nodes xs"
  proof (cases "xs = []")
    case True
    then show ?thesis
      using assms by (simp add: filled_Nil)
  next
    case False
    then show ?thesis
      using assms adds_Array [OF nz [OF False] le] by simp
  qed
qed

lemma reset_Array:
  "reset (Array max_nodes :: 'e Array) =
     (if 0 < unat max_nodes then Inl NullDereference else Inl OutOfBounds)"
proof -
  have "reset (filled 1 max_nodes ([] :: 'e list)) =
      (if ([] :: 'e list) \<noteq> [] \<and> length ([] :: 'e list) mod unat (1 :: u32) \<noteq> 0
       then Inr (Array max_nodes)
       else if length ([] :: 'e list) < unat max_nodes * unat (1 :: u32) then Inl NullDereference
       else Inl OutOfBounds)"
    by (rule reset_filled) simp_all
  then show ?thesis
    by (simp add: filled_Nil)
qed

lemma reset_succeeds_iff:
  "(\<exists>a'. reset a = Inr a') =
     list_all (allocated a) [0..<Suc (unat (node_index (cur_pos a)))]"
proof (cases "find (\<lambda>k. \<not> allocated a k) [0..<Suc (unat (node_index (cur_pos a)))]")
  case None
  then have "list_all (allocated a) [0..<Suc (unat (node_index (cur_pos a)))]"
    by (simp only: find_None_iff list_all_iff) blast
  then show ?thesis
    using None by (simp add: reset_eq del: upt_Suc)
next
  case (Some k)
  then have "\<not> list_all (allocated a) [0..<Suc (unat (node_index (cur_pos a)))]"
    by (auto simp: find_Some_iff list_all_iff simp del: upt_Suc)
  then show ?thesis
    using Some by (simp add: reset_eq del: upt_Suc)
qed

section \<open>Recording into a fresh tracker, and its replay\<close>

lemma records_fresh:
  assumes m: "offset_mask t = mask w" "w \<le> 32" and r: "\<forall>obj\<in>set objs. in_region t obj"
    and a: "nodes_array t = Array max_nodes"
    and c: "length objs < unat max_nodes * unat NODE_LENGTH"
  shows "records objs t =
           Some (Inr (t\<lparr>nodes_array := filled NODE_LENGTH max_nodes (map (offset_of t) objs)\<rparr>))"
proof -
  have c': "length objs < unat max_nodes * 256"
    using c by (simp add: unat_NODE_LENGTH)
  have na: "nodes_array t = filled NODE_LENGTH max_nodes []"
    using a by (simp add: filled_Nil)
  have "records objs t = Some (Inr (t\<lparr>nodes_array :=
      filled NODE_LENGTH max_nodes ([] @ map (offset_of t) objs)\<rparr>))"
    using m r na c' by (intro records_filled [where w = w]) simp_all
  then show ?thesis
    by simp
qed

lemma iterate_recorded:
  assumes m: "offset_mask t = mask w" "w \<le> 32" and r: "\<forall>obj\<in>set objs. in_region t obj"
    and c: "length objs < unat max_nodes * unat NODE_LENGTH"
  shows "iterate (t\<lparr>nodes_array := filled NODE_LENGTH max_nodes (map (offset_of t) objs)\<rparr>)
           do_object closure =
         Inr (fold do_object (sorted_list_of_set (set objs)) closure)"
proof -
  let ?offs = "map (offset_of t) objs"
  let ?t' = "t\<lparr>nodes_array := filled NODE_LENGTH max_nodes ?offs\<rparr>"
  have rd: "iterate_elements NODE_LENGTH (\<lambda>offset acc. acc @ [offset])
      (filled NODE_LENGTH max_nodes ?offs) [] = Inr ?offs"
    using c by (simp add: iterate_elements_filled unat_NODE_LENGTH fold_snoc)
  have cast: "cast_from_offset ?t' = cast_from_offset t"
    by (rule ext) (simp add: cast_from_offset_def)
  have vs: "map (cast_from_offset t) (normalize ?offs) = sorted_list_of_set (set objs)"
    using m r by (rule visits_sorted_list)
  have "iterate ?t' do_object closure =
      Inr (fold (\<lambda>offset. do_object (cast_from_offset t offset)) (normalize ?offs) closure)"
    by (simp add: iterate_def rd cast)
  also have "fold (\<lambda>offset. do_object (cast_from_offset t offset)) (normalize ?offs) closure =
      fold do_object (map (cast_from_offset t) (normalize ?offs)) closure"
    by (simp add: fold_map o_def)
  finally show ?thesis
    by (simp only: vs)
qed






section \<open>Concurrent insertion: the invariant\<close>

text \<open>How the properties of the threads change when one thread of the list is replaced.\<close>

lemma sum_list_map_update:
  fixes f :: "'a \<Rightarrow> 'b :: comm_monoid_add"
  assumes "i < length ts"
  shows "sum_list (map f (ts[i := t'])) + f (ts ! i) = sum_list (map f ts) + f t'"
proof -
  have a: "ts = take i ts @ ts ! i # drop (Suc i) ts"
    using assms by (simp add: id_take_nth_drop)
  have b: "ts[i := t'] = take i ts @ t' # drop (Suc i) ts"
    using assms by (simp add: upd_conv_take_nth_drop)
  have "sum_list (map f ts) = sum_list (map f (take i ts)) + f (ts ! i) + sum_list (map f (drop (Suc i) ts))"
    by (subst a) (simp add: add.assoc)
  moreover have "sum_list (map f (ts[i := t'])) = sum_list (map f (take i ts)) + f t' + sum_list (map f (drop (Suc i) ts))"
    by (subst b) (simp add: add.assoc)
  ultimately show ?thesis by (simp add: ac_simps)
qed

lemma unique_update:
  assumes "step_ok LEN ts i t'"
  shows "inv_unique LEN (ts[i := t'])"
  using assms unfolding step_ok_def inv_unique_def
  by (auto simp: nth_list_update split: if_splits) metis+

lemma holder_update:
  assumes "step_ok LEN ts i t'"
  shows "holder LEN Q (ts[i := t']) k =
           (if held LEN t' = Some k then Q t'
            else if held LEN (ts ! i) = Some k then False
            else holder LEN Q ts k)"
  using assms unfolding step_ok_def inv_unique_def holder_def
  by (auto simp: nth_list_update split: if_splits)

lemma holder_self:
  assumes "inv_unique LEN ts" "i < length ts" "held LEN (ts ! i) = Some k"
  shows "holder LEN Q ts k = Q (ts ! i)"
  using assms unfolding inv_unique_def holder_def by auto

lemma holder_same:
  assumes "inv_unique LEN ts" "i < length ts" "held LEN t' = held LEN (ts ! i)" "Q t' = Q (ts ! i)"
  shows "holder LEN Q (ts[i := t']) k = holder LEN Q ts k"
proof -
  have "step_ok LEN ts i t'"
    using assms by (simp add: step_ok_def)
  then show ?thesis
    using assms holder_self [OF assms(1,2), of k Q] by (simp add: holder_update)
qed

lemma held_simps [simp]:
  "held LEN (Idle, td) = None"
  "held LEN (Start e, td) = None"
  "held LEN (Loaded e pos np, td) = None"
  "held LEN (Reserved e pos, td) = Some (unat (node_index pos) * unat LEN + unat (low pos))"
  "held LEN (Waiting e hi lo, td) = Some (unat hi * unat LEN + unat lo)"
  "held LEN (Writing e hi lo p, td) = Some (unat hi * unat LEN + unat lo)"
  "held LEN (Counting e hi lo, td) = Some (unat hi * unat LEN + unat lo)"
  "held LEN (Failed err, td) = None"
  by (simp_all add: held_def)

lemma reserved_simps [simp]:
  "reserved (Idle, td) = False"
  "reserved (Start e, td) = False"
  "reserved (Loaded e pos np, td) = False"
  "reserved (Reserved e pos, td) = True"
  "reserved (Waiting e hi lo, td) = False"
  "reserved (Writing e hi lo p, td) = False"
  "reserved (Counting e hi lo, td) = False"
  "reserved (Failed err, td) = False"
  by (simp_all add: reserved_def)

lemma early_simps [simp]:
  "early (Idle, td) = False"
  "early (Start e, td) = False"
  "early (Loaded e pos np, td) = False"
  "early (Reserved e pos, td) = True"
  "early (Waiting e hi lo, td) = True"
  "early (Writing e hi lo p, td) = False"
  "early (Counting e hi lo, td) = False"
  "early (Failed err, td) = False"
  by (simp_all add: early_def)

lemma unwritten_simps [simp]:
  "unwritten (Idle, td) = False"
  "unwritten (Start e, td) = False"
  "unwritten (Loaded e pos np, td) = False"
  "unwritten (Reserved e pos, td) = True"
  "unwritten (Waiting e hi lo, td) = True"
  "unwritten (Writing e hi lo p, td) = True"
  "unwritten (Counting e hi lo, td) = False"
  "unwritten (Failed err, td) = False"
  by (simp_all add: unwritten_def)

lemma pending_simps [simp]:
  "pending (Idle, td) = mset td"
  "pending (Start e, td) = {#e#} + mset td"
  "pending (Loaded e pos np, td) = {#e#} + mset td"
  "pending (Reserved e pos, td) = mset td"
  "pending (Waiting e hi lo, td) = mset td"
  "pending (Writing e hi lo p, td) = mset td"
  "pending (Counting e hi lo, td) = mset td"
  "pending (Failed err, td) = mset td"
  by (simp_all add: pending_def)

text \<open>A step of thread \<open>i\<close> that touches neither the shared state nor the slot it
  holds keeps the invariant.\<close>

lemma log_inv_local:
  assumes inv: "log_inv LEN T ts s ys" and i: "i < length ts"
    and h: "held LEN t' = held LEN (ts ! i)"
    and r: "reserved t' = reserved (ts ! i)" "early t' = early (ts ! i)"
           "unwritten t' = unwritten (ts ! i)"
    and p: "pending t' = pending (ts ! i)"
    and t: "thread_inv LEN ys s (fst t')"
  shows "log_inv LEN T (ts[i := t']) s ys"
proof -
  have u: "inv_unique LEN ts"
    using inv by (simp add: log_inv_def)
  have ok: "step_ok LEN ts i t'"
    using u i h by (simp add: step_ok_def)
  have 1: "inv_threads LEN (ts[i := t']) s ys"
    using inv t i by (auto simp: log_inv_def inv_threads_def nth_list_update)
  have 2: "inv_unique LEN (ts[i := t'])"
    using ok by (rule unique_update)
  have 3: "inv_table LEN (ts[i := t']) s ys"
    using inv unfolding log_inv_def inv_table_def
    by (simp add: holder_same [OF u i h r(1)])
  have 4: "inv_heap LEN (ts[i := t']) s ys"
    using inv unfolding log_inv_def inv_heap_def
    by (simp add: holder_same [OF u i h r(3)])
  have 5: "inv_early LEN (ts[i := t']) s ys"
    using inv unfolding log_inv_def inv_early_def
    by (simp add: holder_same [OF u i h r(2)])
  have 6: "inv_count LEN (ts[i := t']) s ys"
    using inv sum_list_map_update [OF i, of "in_flight LEN" t'] h
    unfolding log_inv_def inv_count_def by (simp add: in_flight_def)
  have 7: "inv_elems LEN T (ts[i := t']) s ys"
    using inv sum_list_map_update [OF i, of pending t'] p
    unfolding log_inv_def inv_elems_def by simp
  show ?thesis
    using inv 1 2 3 4 5 6 7 by (simp add: log_inv_def)
qed

text \<open>The steps before the reservation, and the exchange that reserves slot \<open>length ys\<close>.\<close>

lemma held_bound:
  assumes "inv_threads LEN ts s ys" "j < length ts" "held LEN (ts ! j) = Some k"
  shows "k < length ys"
proof -
  obtain pc td where t: "ts ! j = (pc, td)"
    by (cases "ts ! j")
  have "thread_inv LEN ys s pc"
    using assms(1,2) t by (auto simp: inv_threads_def)
  then show ?thesis
    using assms(3) t by (cases pc) (auto simp: owns_def)
qed

lemma pending_room:
  assumes inv: "log_inv LEN T ts s ys" and i: "i < length ts" and e: "e \<in># pending (ts ! i)"
  shows "length ys < unat (sh_max_nodes_length s) * unat LEN"
proof -
  have "sum_list (map pending (ts[i := (Idle, [])])) + pending (ts ! i) = sum_list (map pending ts)"
    using sum_list_map_update [OF i, of pending "(Idle, [])"] by simp
  then have "size (pending (ts ! i)) \<le> size (sum_list (map pending ts))"
    by (metis size_union le_add2)
  moreover have "0 < size (pending (ts ! i))"
    using e by (metis gr0I size_eq_0_iff_empty empty_iff set_mset_empty)
  moreover have "length ys + size (sum_list (map pending ts)) \<le> unat (sh_max_nodes_length s) * unat LEN"
    using inv unfolding log_inv_def inv_elems_def by (metis size_mset size_union)
  ultimately show ?thesis by linarith
qed

lemma thread_inv_snoc:
  assumes "thread_inv LEN ys s pc" "sh_nodes s' = sh_nodes s"
  shows "thread_inv LEN (ys @ [e]) s' pc"
  using assms by (cases pc) (auto simp: owns_def nth_append)

lemma step_call:
  assumes inv: "log_inv LEN T ts s ys" and i: "i < length ts" and ti: "ts ! i = (Idle, e # es)"
  shows "log_inv LEN T (ts[i := (Start e, es)]) s ys"
  using inv i by (rule log_inv_local) (simp_all add: ti)

lemma step_load:
  assumes inv: "log_inv LEN T ts s ys" and i: "i < length ts" and ti: "ts ! i = (Start e, es)"
  shows "\<exists>np. next' LEN (sh_cur_pos s) = Inr np \<and>
           log_inv LEN T (ts[i := (Loaded e (sh_cur_pos s) np, es)]) s ys"
proof -
  have room: "length ys < unat (sh_max_nodes_length s) * unat LEN"
    using pending_room [OF inv i, of e] by (simp add: ti)
  have c: "0 < unat LEN" "sh_cur_pos s = cur_pos (filled LEN (sh_max_nodes_length s) ys)"
    using inv by (simp_all add: log_inv_def inv_cursor_def)
  have n: "next' LEN (sh_cur_pos s) = Inr (cur_pos (filled LEN (sh_max_nodes_length s) (ys @ [e])))"
    using next'_filled [OF c(1) room] c(2) by simp
  have "log_inv LEN T (ts[i := (Loaded e (sh_cur_pos s) (cur_pos (filled LEN (sh_max_nodes_length s) (ys @ [e]))), es)]) s ys"
    using inv i by (rule log_inv_local) (simp_all add: ti n)
  then show ?thesis
    using n by simp
qed

lemma step_cas_fail:
  assumes inv: "log_inv LEN T ts s ys" and i: "i < length ts" and ti: "ts ! i = (Loaded e pos np, es)"
  shows "log_inv LEN T (ts[i := (Start e, es)]) s ys"
  using inv i by (rule log_inv_local) (simp_all add: ti)

lemma step_spin:
  assumes inv: "log_inv LEN T ts s ys" and i: "i < length ts" and ti: "ts ! i = (Waiting e hi lo, es)"
  shows "log_inv LEN T (ts[i := (Waiting e hi lo, es)]) s ys"
  using inv i ti by (metis list_update_id)

lemma step_cas:
  assumes inv: "log_inv LEN T ts s ys" and i: "i < length ts"
    and ti: "ts ! i = (Loaded e pos np, es)" and eq: "sh_cur_pos s = pos"
  shows "log_inv LEN T (ts[i := (Reserved e pos, es)]) (s\<lparr>sh_cur_pos := np\<rparr>) (ys @ [e])"
proof -
  let ?mx = "sh_max_nodes_length s" and ?L = "unat LEN" and ?M = "length ys"
  let ?t = "(Reserved e pos, es)" and ?s = "s\<lparr>sh_cur_pos := np\<rparr>"
  have room: "?M < unat ?mx * ?L"
    using pending_room [OF inv i, of e] by (simp add: ti)
  have c: "0 < ?L" "length (sh_nodes s) = unat ?mx" "pos = cur_pos (filled LEN ?mx ys)"
    using inv eq by (simp_all add: log_inv_def inv_cursor_def)
  have th: "inv_threads LEN ts s ys" and u: "inv_unique LEN ts"
    using inv by (simp_all add: log_inv_def)
  have "thread_inv LEN ys s (Loaded e pos np)"
    using th i ti by (auto simp: inv_threads_def)
  then have np: "np = cur_pos (filled LEN ?mx (ys @ [e]))"
    using next'_filled [OF c(1) room, of e] c(3) by simp
  have hi: "unat (node_index pos) = ?M div ?L" and lo: "unat (low pos) = ?M mod ?L"
    using node_index_filled [OF c(1), of ys ?mx] low_filled [OF c(1), of ys ?mx] room c(3)
    by simp_all
  have k: "held LEN ?t = Some ?M"
    by (simp add: hi lo)
  have fresh: "\<forall>j<length ts. held LEN (ts ! j) \<noteq> held LEN ?t"
    using held_bound [OF th] unfolding k by (metis less_irrefl)
  have ok: "step_ok LEN ts i ?t"
    using i u fresh by (simp add: step_ok_def)
  have hu: "holder LEN Q (ts[i := ?t]) k = (if k = ?M then Q ?t else holder LEN Q ts k)" for Q k
    using holder_update [OF ok, of Q k] by (auto simp: ti hi lo)
  have 0: "inv_cursor LEN ?s (ys @ [e])"
    using c np by (simp add: inv_cursor_def)
  have 1: "inv_threads LEN (ts[i := ?t]) ?s (ys @ [e])"
    unfolding inv_threads_def
  proof (intro allI impI)
    fix j assume j: "j < length (ts[i := ?t])"
    show "thread_inv LEN (ys @ [e]) ?s (fst (ts[i := ?t] ! j))"
    proof (cases "j = i")
      case True
      then show ?thesis
        using i c(1) by (simp add: owns_def hi lo)
    next
      case False
      have "thread_inv LEN ys s (fst (ts ! j))"
        using th j by (simp add: inv_threads_def)
      then have "thread_inv LEN (ys @ [e]) ?s (fst (ts ! j))"
        by (rule thread_inv_snoc) simp
      then show ?thesis
        using False by simp
    qed
  qed
  have 2: "inv_unique LEN (ts[i := ?t])"
    using ok by (rule unique_update)
  have 3: "inv_pointers ?s"
    using inv by (simp add: log_inv_def inv_pointers_def)
  have 4: "inv_table LEN (ts[i := ?t]) ?s (ys @ [e])"
    using inv unfolding log_inv_def inv_table_def
    by (auto simp: hu)
  have 5: "inv_heap LEN (ts[i := ?t]) ?s (ys @ [e])"
    using inv unfolding log_inv_def inv_heap_def
    by (auto simp: hu nth_append)
  have 6: "inv_early LEN (ts[i := ?t]) ?s (ys @ [e])"
    using inv unfolding log_inv_def inv_early_def
    by (auto simp: hu less_Suc_eq)
  have 7: "inv_count LEN (ts[i := ?t]) ?s (ys @ [e])"
    using inv sum_list_map_update [OF i, of "in_flight LEN" ?t]
    unfolding log_inv_def inv_count_def by (simp add: in_flight_def ti)
  have rel: "sum_list (map pending ts) = add_mset e (sum_list (map pending (ts[i := ?t])))"
    using sum_list_map_update [OF i, of pending ?t] by (simp add: ti)
  have 8: "inv_elems LEN T (ts[i := ?t]) ?s (ys @ [e])"
    using inv unfolding log_inv_def inv_elems_def by (auto simp: rel)
  show ?thesis
    using 0 1 2 3 4 5 6 7 8 by (simp add: log_inv_def)
qed

text \<open>The steps of a thread that holds a slot: leaving the wait, and the increment.\<close>

lemma len_le_cap:
  assumes "log_inv LEN T ts s ys"
  shows "length ys \<le> unat (sh_max_nodes_length s) * unat LEN"
proof -
  have "length ys + size (sum_list (map pending ts)) \<le> unat (sh_max_nodes_length s) * unat LEN"
    using assms unfolding log_inv_def inv_elems_def by (metis size_mset size_union)
  then show ?thesis by linarith
qed

lemma thread_inv_nodes:
  assumes "sh_nodes s' = sh_nodes s"
  shows "thread_inv LEN ys s' pc = thread_inv LEN ys s pc"
  using assms by (cases pc) auto

lemma holder_mono:
  assumes "holder LEN Q ts k" "\<And>t. Q t \<Longrightarrow> Q' t"
  shows "holder LEN Q' ts k"
  using assms unfolding holder_def by blast

lemma early_unwritten: "early t \<Longrightarrow> unwritten t"
  by (auto simp: early_def unwritten_def split: pc.splits)

text \<open>What the invariant gives a thread that holds a reservation.\<close>

lemma owner_facts:
  assumes inv: "log_inv LEN T ts s ys" and i: "i < length ts"
    and own: "owns LEN ys h l e" and k: "held LEN (ts ! i) = Some (h * unat LEN + l)"
  shows "h < length (sh_nodes s)" "h < unat (sh_max_nodes_length s)"
    "(h * unat LEN + l) div unat LEN = h" "(h * unat LEN + l) mod unat LEN = l"
    "\<And>Q. holder LEN Q ts (h * unat LEN + l) = Q (ts ! i)"
proof -
  have c: "0 < unat LEN" "length (sh_nodes s) = unat (sh_max_nodes_length s)"
    using inv by (simp_all add: log_inv_def inv_cursor_def)
  have l: "l < unat LEN" and b: "h * unat LEN + l < length ys"
    using own by (simp_all add: owns_def)
  have "h * unat LEN < unat (sh_max_nodes_length s) * unat LEN"
    using b len_le_cap [OF inv] by linarith
  then show "h < unat (sh_max_nodes_length s)"
    by simp
  then show "h < length (sh_nodes s)"
    using c by simp
  show "(h * unat LEN + l) div unat LEN = h" "(h * unat LEN + l) mod unat LEN = l"
    using l by simp_all
  have u: "inv_unique LEN ts"
    using inv by (simp add: log_inv_def)
  show "holder LEN Q ts (h * unat LEN + l) = Q (ts ! i)" for Q
    using holder_self [OF u i k] .
qed

lemma slot_eq:
  fixes L :: nat
  assumes "l < L" "j < L"
  shows "(i * L + j = h * L + l) = (i = h \<and> j = l)"
proof
  assume e: "i * L + j = h * L + l"
  have "(i * L + j) div L = i" "(h * L + l) div L = h" "(i * L + j) mod L = j" "(h * L + l) mod L = l"
    using assms by simp_all
  then show "i = h \<and> j = l"
    using e by metis
qed simp

lemma step_wait:
  assumes inv: "log_inv LEN T ts s ys" and i: "i < length ts"
    and ti: "ts ! i = (Waiting e hi lo, es)"
    and ld: "sh_nodes s ! unat hi = Some p"
  shows "log_inv LEN T (ts[i := (Writing e hi lo p, es)]) s ys"
proof -
  let ?t = "(Writing e hi lo p, es)" and ?k = "unat hi * unat LEN + unat lo"
  have th: "inv_threads LEN ts s ys" and u: "inv_unique LEN ts"
    using inv by (simp_all add: log_inv_def)
  have own: "owns LEN ys (unat hi) (unat lo) e"
    using th i ti by (auto simp: inv_threads_def)
  have k: "held LEN (ts ! i) = Some ?k"
    by (simp add: ti)
  note f = owner_facts [OF inv i own k]
  have ok: "step_ok LEN ts i ?t"
    using i u by (simp add: step_ok_def ti)
  have hu: "holder LEN Q (ts[i := ?t]) k = (if k = ?k then Q ?t else holder LEN Q ts k)" for Q k
    using holder_update [OF ok, of Q k] by (auto simp: ti)
  have 1: "inv_threads LEN (ts[i := ?t]) s ys"
    using th i own ld f(1) by (auto simp: inv_threads_def nth_list_update)
  have 2: "inv_unique LEN (ts[i := ?t])"
    using ok by (rule unique_update)
  have 4: "inv_table LEN (ts[i := ?t]) s ys"
    using inv unfolding log_inv_def inv_table_def
    by (simp add: holder_same [OF u i] ti)
  have 5: "inv_heap LEN (ts[i := ?t]) s ys"
    using inv unfolding log_inv_def inv_heap_def
    by (simp add: holder_same [OF u i] ti)
  have 6: "inv_early LEN (ts[i := ?t]) s ys"
    using inv ld f(3) unfolding log_inv_def inv_early_def
    by (auto simp: hu)
  have 7: "inv_count LEN (ts[i := ?t]) s ys"
    using inv sum_list_map_update [OF i, of "in_flight LEN" ?t]
    unfolding log_inv_def inv_count_def by (simp add: in_flight_def ti)
  have 8: "inv_elems LEN T (ts[i := ?t]) s ys"
    using inv sum_list_map_update [OF i, of pending ?t]
    unfolding log_inv_def inv_elems_def by (simp add: ti)
  show ?thesis
    using inv 1 2 4 5 6 7 8 by (simp add: log_inv_def)
qed

lemma step_count:
  assumes inv: "log_inv LEN T ts s ys" and i: "i < length ts"
    and ti: "ts ! i = (Counting e hi lo, es)"
  shows "log_inv LEN T (ts[i := (Idle, es)]) (s\<lparr>sh_elements_num := sh_elements_num s + 1\<rparr>) ys"
proof -
  let ?t = "(Idle, es) :: 'a thread" and ?k = "unat hi * unat LEN + unat lo"
  let ?s = "s\<lparr>sh_elements_num := sh_elements_num s + 1\<rparr>"
  have th: "inv_threads LEN ts s ys" and u: "inv_unique LEN ts"
    using inv by (simp_all add: log_inv_def)
  have own: "owns LEN ys (unat hi) (unat lo) e"
    using th i ti by (auto simp: inv_threads_def)
  have k: "held LEN (ts ! i) = Some ?k"
    by (simp add: ti)
  note f = owner_facts [OF inv i own k]
  have ok: "step_ok LEN ts i ?t"
    using i u by (simp add: step_ok_def)
  have hu: "holder LEN Q (ts[i := ?t]) k = (if k = ?k then False else holder LEN Q ts k)" for Q k
    using holder_update [OF ok, of Q k] by (auto simp: ti)
  have hr: "holder LEN reserved (ts[i := ?t]) k = holder LEN reserved ts k"
    and he: "holder LEN early (ts[i := ?t]) k = holder LEN early ts k"
    and hw: "holder LEN unwritten (ts[i := ?t]) k = holder LEN unwritten ts k" for k
    using f(5) [of reserved] f(5) [of early] f(5) [of unwritten] by (auto simp: hu ti)
  have 0: "inv_cursor LEN ?s ys"
    using inv by (simp add: log_inv_def inv_cursor_def)
  have 1: "inv_threads LEN (ts[i := ?t]) ?s ys"
    using th i by (auto simp: inv_threads_def nth_list_update thread_inv_nodes [of ?s s])
  have 2: "inv_unique LEN (ts[i := ?t])"
    using ok by (rule unique_update)
  have 3: "inv_pointers ?s"
    using inv by (simp add: log_inv_def inv_pointers_def)
  have 4: "inv_table LEN (ts[i := ?t]) ?s ys"
    using inv unfolding log_inv_def inv_table_def by (simp add: hr)
  have 5: "inv_heap LEN (ts[i := ?t]) ?s ys"
    using inv unfolding log_inv_def inv_heap_def by (simp add: hw)
  have 6: "inv_early LEN (ts[i := ?t]) ?s ys"
    using inv unfolding log_inv_def inv_early_def by (simp add: he)
  have rel: "sum_list (map (in_flight LEN) ts) = Suc (sum_list (map (in_flight LEN) (ts[i := ?t])))"
    using sum_list_map_update [OF i, of "in_flight LEN" ?t] by (simp add: in_flight_def ti)
  have 7: "inv_count LEN (ts[i := ?t]) ?s ys"
    using inv unfolding log_inv_def inv_count_def by (simp add: rel ac_simps)
  have 8: "inv_elems LEN T (ts[i := ?t]) ?s ys"
    using inv sum_list_map_update [OF i, of pending ?t]
    unfolding log_inv_def inv_elems_def by (simp add: ti)
  show ?thesis
    using 0 1 2 3 4 5 6 7 8 by (simp add: log_inv_def)
qed

text \<open>The step after the exchange (with and without the store of a new node), and the
  write of the element.\<close>

lemma step_reserved_later:
  assumes inv: "log_inv LEN T ts s ys" and i: "i < length ts"
    and ti: "ts ! i = (Reserved e pos, es)"
    and hi: "unat hi = unat (node_index pos)" and lo: "unat lo = unat (low pos)"
    and nz: "unat (low pos) \<noteq> 0"
  shows "log_inv LEN T (ts[i := (Waiting e hi lo, es)]) s ys"
proof -
  let ?t = "(Waiting e hi lo, es)" and ?k = "unat hi * unat LEN + unat lo"
  have th: "inv_threads LEN ts s ys" and u: "inv_unique LEN ts"
    using inv by (simp_all add: log_inv_def)
  have own: "owns LEN ys (unat hi) (unat lo) e"
    using th i ti hi lo by (auto simp: inv_threads_def)
  have k: "held LEN (ts ! i) = Some ?k"
    by (simp add: ti hi lo)
  note f = owner_facts [OF inv i own k]
  have ok: "step_ok LEN ts i ?t"
    using i u by (simp add: step_ok_def ti hi lo)
  have hu: "holder LEN Q (ts[i := ?t]) k = (if k = ?k then Q ?t else holder LEN Q ts k)" for Q k
    using holder_update [OF ok, of Q k] by (auto simp: ti hi lo)
  have nk: "i' * unat LEN \<noteq> ?k" for i'
    using f(4) nz lo by (metis mod_mult_self2_is_0)
  have 1: "inv_threads LEN (ts[i := ?t]) s ys"
    using th i own by (auto simp: inv_threads_def nth_list_update)
  have 2: "inv_unique LEN (ts[i := ?t])"
    using ok by (rule unique_update)
  have 4: "inv_table LEN (ts[i := ?t]) s ys"
    using inv unfolding log_inv_def inv_table_def
    by (simp add: hu nk)
  have 5: "inv_heap LEN (ts[i := ?t]) s ys"
    using inv unfolding log_inv_def inv_heap_def
    by (simp add: holder_same [OF u i] ti hi lo)
  have 6: "inv_early LEN (ts[i := ?t]) s ys"
    using inv unfolding log_inv_def inv_early_def
    by (simp add: holder_same [OF u i] ti hi lo)
  have 7: "inv_count LEN (ts[i := ?t]) s ys"
    using inv sum_list_map_update [OF i, of "in_flight LEN" ?t]
    unfolding log_inv_def inv_count_def by (simp add: in_flight_def ti)
  have 8: "inv_elems LEN T (ts[i := ?t]) s ys"
    using inv sum_list_map_update [OF i, of pending ?t]
    unfolding log_inv_def inv_elems_def by (simp add: ti)
  show ?thesis
    using inv 1 2 4 5 6 7 8 by (simp add: log_inv_def)
qed

lemma thread_inv_publish:
  assumes "thread_inv LEN ys s pc" "sh_nodes s ! h = None"
  shows "thread_inv LEN ys (s\<lparr>sh_nodes := (sh_nodes s)[h := x], sh_heap := hp\<rparr>) pc"
  using assms by (cases pc) (auto, metis nth_list_update_neq option.distinct(1))

lemma step_reserved_first:
  assumes inv: "log_inv LEN T ts s ys" and i: "i < length ts"
    and ti: "ts ! i = (Reserved e pos, es)"
    and hi: "unat hi = unat (node_index pos)" and lo: "unat lo = unat (low pos)"
    and z: "unat (low pos) = 0"
  shows "log_inv LEN T (ts[i := (Waiting e hi lo, es)])
           (s\<lparr>sh_nodes := (sh_nodes s)[unat hi := Some (length (sh_heap s))],
              sh_heap := sh_heap s @ [create_node LEN]\<rparr>) ys"
proof -
  let ?t = "(Waiting e hi lo, es)" and ?k = "unat hi * unat LEN + unat lo"
  let ?s = "s\<lparr>sh_nodes := (sh_nodes s)[unat hi := Some (length (sh_heap s))],
               sh_heap := sh_heap s @ [create_node LEN]\<rparr>"
  have c: "0 < unat LEN"
    using inv by (simp add: log_inv_def inv_cursor_def)
  have th: "inv_threads LEN ts s ys" and u: "inv_unique LEN ts" and pt: "inv_pointers s"
    and tb: "inv_table LEN ts s ys" and hp: "inv_heap LEN ts s ys" and ea: "inv_early LEN ts s ys"
    using inv by (simp_all add: log_inv_def)
  have own: "owns LEN ys (unat hi) (unat lo) e"
    using th i ti hi lo by (auto simp: inv_threads_def)
  have k: "held LEN (ts ! i) = Some ?k"
    by (simp add: ti hi lo)
  note f = owner_facts [OF inv i own k]
  have k0: "?k = unat hi * unat LEN"
    using lo z by simp
  have ok: "step_ok LEN ts i ?t"
    using i u by (simp add: step_ok_def ti hi lo)
  have hu: "holder LEN Q (ts[i := ?t]) k = (if k = ?k then Q ?t else holder LEN Q ts k)" for Q k
    using holder_update [OF ok, of Q k] by (auto simp: ti hi lo)
  have null: "sh_nodes s ! unat hi = None"
    using tb f(1) f(5) [of reserved] unfolding inv_table_def k0 by (simp add: ti)
  have 0: "inv_cursor LEN ?s ys"
    using inv by (simp add: log_inv_def inv_cursor_def)
  have 1: "inv_threads LEN (ts[i := ?t]) ?s ys"
    unfolding inv_threads_def
  proof (intro allI impI)
    fix j assume j: "j < length (ts[i := ?t])"
    show "thread_inv LEN ys ?s (fst (ts[i := ?t] ! j))"
    proof (cases "j = i")
      case True
      then show ?thesis
        using i own by simp
    next
      case False
      have "thread_inv LEN ys s (fst (ts ! j))"
        using th j by (simp add: inv_threads_def)
      then have "thread_inv LEN ys ?s (fst (ts ! j))"
        using null by (rule thread_inv_publish)
      then show ?thesis
        using False by simp
    qed
  qed
  have 2: "inv_unique LEN (ts[i := ?t])"
    using ok by (rule unique_update)
  have 3: "inv_pointers ?s"
    unfolding inv_pointers_def
  proof (intro allI impI)
    fix i' p assume "i' < length (sh_nodes ?s)" and e: "sh_nodes ?s ! i' = Some p"
    then have i': "i' < length (sh_nodes s)" by simp
    have old: "q < length (sh_heap s)" if "j < length (sh_nodes s)" "sh_nodes s ! j = Some q" for j q
      using pt that unfolding inv_pointers_def by blast
    have inj: "j = j'" if "j < length (sh_nodes s)" "sh_nodes s ! j = Some q"
      "j' < length (sh_nodes s)" "sh_nodes s ! j' = Some q" for j j' q
      using pt that unfolding inv_pointers_def by blast
    show "p < length (sh_heap ?s) \<and>
          (\<forall>j<length (sh_nodes ?s). sh_nodes ?s ! j = Some p \<longrightarrow> i' = j)"
    proof (cases "i' = unat hi")
      case True
      then have p: "p = length (sh_heap s)"
        using e i' by simp
      have "j = unat hi" if "j < length (sh_nodes s)" "(sh_nodes s)[unat hi := Some (length (sh_heap s))] ! j = Some p" for j
      proof (rule ccontr)
        assume "j \<noteq> unat hi"
        then have "sh_nodes s ! j = Some (length (sh_heap s))"
          using that p by simp
        then show False
          using old [OF that(1)] by simp
      qed
      then show ?thesis
        using p True by auto
    next
      case False
      then have e': "sh_nodes s ! i' = Some p"
        using e by simp
      have pl: "p < length (sh_heap s)"
        using old [OF i' e'] .
      have "i' = j" if "j < length (sh_nodes s)" "(sh_nodes s)[unat hi := Some (length (sh_heap s))] ! j = Some p" for j
      proof (cases "j = unat hi")
        case True
        then show ?thesis
          using that pl by simp
      next
        case False
        then have "sh_nodes s ! j = Some p"
          using that by simp
        then show ?thesis
          using inj [OF i' e' that(1)] by simp
      qed
      then show ?thesis
        using pl by auto
    qed
  qed
  have neq: "(i' * unat LEN = ?k) = (i' = unat hi)" for i'
    using c unfolding k0 by simp
  have 4: "inv_table LEN (ts[i := ?t]) ?s ys"
    unfolding inv_table_def
  proof (intro allI impI)
    fix i' assume "i' < length (sh_nodes ?s)"
    then have i': "i' < length (sh_nodes s)" by simp
    have old: "(sh_nodes s ! i' = None) =
                 (length ys \<le> i' * unat LEN \<or> holder LEN reserved ts (i' * unat LEN))"
      using tb i' by (simp add: inv_table_def)
    show "(sh_nodes ?s ! i' = None) =
            (length ys \<le> i' * unat LEN \<or> holder LEN reserved (ts[i := ?t]) (i' * unat LEN))"
    proof (cases "i' = unat hi")
      case True
      then show ?thesis
        using i' own by (simp add: hu neq owns_def lo z)
    next
      case False
      then show ?thesis
        using i' old by (simp add: hu neq)
    qed
  qed
  have 5: "inv_heap LEN (ts[i := ?t]) ?s ys"
    unfolding inv_heap_def
  proof (intro allI impI)
    fix i' p assume "i' < length (sh_nodes ?s)" and e: "sh_nodes ?s ! i' = Some p"
    then have i': "i' < length (sh_nodes s)" by simp
    show "length (sh_heap ?s ! p) = unat LEN \<and>
          (\<forall>j<unat LEN. sh_heap ?s ! p ! j =
             (if i' * unat LEN + j < length ys \<and>
                 \<not> holder LEN unwritten (ts[i := ?t]) (i' * unat LEN + j)
              then Some (ys ! (i' * unat LEN + j)) else None))"
    proof (cases "i' = unat hi")
      case True
      then have p: "p = length (sh_heap s)"
        using e i' by simp
      have "holder LEN unwritten (ts[i := ?t]) (i' * unat LEN + j)"
        if "j < unat LEN" "i' * unat LEN + j < length ys" for j
      proof -
        have "sh_nodes s ! ((i' * unat LEN + j) div unat LEN) = None"
          using that(1) null True by simp
        then have "holder LEN early ts (i' * unat LEN + j)"
          using ea that(2) by (simp add: inv_early_def)
        then have "holder LEN unwritten ts (i' * unat LEN + j)"
          by (rule holder_mono) (rule early_unwritten)
        then show ?thesis
          by (simp add: hu)
      qed
      then show ?thesis
        by (auto simp: p create_node_def)
    next
      case False
      then have e': "sh_nodes s ! i' = Some p"
        using e by simp
      then have p: "p < length (sh_heap s)"
        using pt i' by (auto simp: inv_pointers_def)
      have same: "holder LEN unwritten (ts[i := ?t]) k = holder LEN unwritten ts k" for k
        using f(5) [of unwritten] by (simp add: hu ti)
      show ?thesis
        using hp i' e' p by (simp add: inv_heap_def nth_append same)
    qed
  qed
  have 6: "inv_early LEN (ts[i := ?t]) ?s ys"
    unfolding inv_early_def
  proof (intro allI impI)
    fix k assume k: "k < length ys" and n: "sh_nodes ?s ! (k div unat LEN) = None"
    have "k div unat LEN \<noteq> unat hi"
      using n f(1) by auto
    then have "sh_nodes s ! (k div unat LEN) = None"
      using n by simp
    then have "holder LEN early ts k"
      using ea k by (simp add: inv_early_def)
    then show "holder LEN early (ts[i := ?t]) k"
      by (simp add: hu)
  qed
  have 7: "inv_count LEN (ts[i := ?t]) ?s ys"
    using inv sum_list_map_update [OF i, of "in_flight LEN" ?t]
    unfolding log_inv_def inv_count_def by (simp add: in_flight_def ti)
  have 8: "inv_elems LEN T (ts[i := ?t]) ?s ys"
    using inv sum_list_map_update [OF i, of pending ?t]
    unfolding log_inv_def inv_elems_def by (simp add: ti)
  show ?thesis
    using 0 1 2 3 4 5 6 7 8 by (simp add: log_inv_def)
qed

lemma step_write:
  assumes inv: "log_inv LEN T ts s ys" and i: "i < length ts"
    and ti: "ts ! i = (Writing e hi lo p, es)"
  shows "p < length (sh_heap s) \<and> unat lo < length (sh_heap s ! p) \<and>
         log_inv LEN T (ts[i := (Counting e hi lo, es)])
           (s\<lparr>sh_heap := (sh_heap s)[p := (sh_heap s ! p)[unat lo := Some e]]\<rparr>) ys"
proof -
  let ?t = "(Counting e hi lo, es)" and ?k = "unat hi * unat LEN + unat lo"
  let ?s = "s\<lparr>sh_heap := (sh_heap s)[p := (sh_heap s ! p)[unat lo := Some e]]\<rparr>"
  have c: "0 < unat LEN"
    using inv by (simp add: log_inv_def inv_cursor_def)
  have th: "inv_threads LEN ts s ys" and u: "inv_unique LEN ts" and pt: "inv_pointers s"
    and tb: "inv_table LEN ts s ys" and hp: "inv_heap LEN ts s ys" and ea: "inv_early LEN ts s ys"
    using inv by (simp_all add: log_inv_def)
  have own: "owns LEN ys (unat hi) (unat lo) e" and e: "sh_nodes s ! unat hi = Some p"
    using th i ti by (auto simp: inv_threads_def)
  have k: "held LEN (ts ! i) = Some ?k"
    by (simp add: ti)
  note f = owner_facts [OF inv i own k]
  have l: "unat lo < unat LEN" and kb: "?k < length ys" and ye: "ys ! ?k = e"
    using own by (simp_all add: owns_def)
  have p: "p < length (sh_heap s)"
    using pt f(1) e by (auto simp: inv_pointers_def)
  have len: "length (sh_heap s ! p) = unat LEN"
    using hp f(1) e by (auto simp: inv_heap_def)
  have ok: "step_ok LEN ts i ?t"
    using i u by (simp add: step_ok_def ti)
  have hu: "holder LEN Q (ts[i := ?t]) k = (if k = ?k then Q ?t else holder LEN Q ts k)" for Q k
    using holder_update [OF ok, of Q k] by (auto simp: ti)
  have 0: "inv_cursor LEN ?s ys"
    using inv by (simp add: log_inv_def inv_cursor_def)
  have 1: "inv_threads LEN (ts[i := ?t]) ?s ys"
    using th i own by (auto simp: inv_threads_def nth_list_update thread_inv_nodes [of ?s s])
  have 2: "inv_unique LEN (ts[i := ?t])"
    using ok by (rule unique_update)
  have 3: "inv_pointers ?s"
    using pt by (simp add: inv_pointers_def)
  have 4: "inv_table LEN (ts[i := ?t]) ?s ys"
    using tb unfolding inv_table_def
    by (simp add: holder_same [OF u i] ti)
  have 5: "inv_heap LEN (ts[i := ?t]) ?s ys"
    unfolding inv_heap_def
  proof (intro allI impI)
    fix i' p' assume "i' < length (sh_nodes ?s)" and "sh_nodes ?s ! i' = Some p'"
    then have i': "i' < length (sh_nodes s)" and e': "sh_nodes s ! i' = Some p'"
      by simp_all
    have old: "length (sh_heap s ! p') = unat LEN"
      "\<And>j. j < unat LEN \<Longrightarrow> sh_heap s ! p' ! j =
             (if i' * unat LEN + j < length ys \<and> \<not> holder LEN unwritten ts (i' * unat LEN + j)
              then Some (ys ! (i' * unat LEN + j)) else None)"
      using hp i' e' by (auto simp: inv_heap_def)
    have pp: "(p' = p) = (i' = unat hi)"
      using pt i' e' e f(1) unfolding inv_pointers_def by (metis option.inject)
    show "length (sh_heap ?s ! p') = unat LEN \<and>
          (\<forall>j<unat LEN. sh_heap ?s ! p' ! j =
             (if i' * unat LEN + j < length ys \<and>
                 \<not> holder LEN unwritten (ts[i := ?t]) (i' * unat LEN + j)
              then Some (ys ! (i' * unat LEN + j)) else None))"
    proof (cases "i' = unat hi")
      case True
      then have [simp]: "p' = p" using pp by simp
      have "sh_heap ?s ! p' ! j =
             (if i' * unat LEN + j < length ys \<and>
                 \<not> holder LEN unwritten (ts[i := ?t]) (i' * unat LEN + j)
              then Some (ys ! (i' * unat LEN + j)) else None)" if j: "j < unat LEN" for j
      proof (cases "j = unat lo")
        case True
        then show ?thesis
          using p len l kb ye \<open>i' = unat hi\<close> by (simp add: hu)
      next
        case False
        then have "i' * unat LEN + j \<noteq> ?k"
          using slot_eq [OF l j] by simp
        then show ?thesis
          using old(2) [OF j] p False by (simp add: hu)
      qed
      then show ?thesis
        using p len by simp
    next
      case False
      then have np: "p' \<noteq> p" using pp by simp
      have "i' * unat LEN + j \<noteq> ?k" if "j < unat LEN" for j
        using slot_eq [OF l that] False by simp
      then show ?thesis
        using old np by (simp add: hu)
    qed
  qed
  have 6: "inv_early LEN (ts[i := ?t]) ?s ys"
    using ea unfolding inv_early_def
    by (simp add: holder_same [OF u i] ti)
  have 7: "inv_count LEN (ts[i := ?t]) ?s ys"
    using inv sum_list_map_update [OF i, of "in_flight LEN" ?t]
    unfolding log_inv_def inv_count_def by (simp add: in_flight_def ti)
  have 8: "inv_elems LEN T (ts[i := ?t]) ?s ys"
    using inv sum_list_map_update [OF i, of pending ?t]
    unfolding log_inv_def inv_elems_def by (simp add: ti)
  show ?thesis
    using 0 1 2 3 4 5 6 7 8 p len l by (simp add: log_inv_def)
qed

text \<open>Every step of the system keeps the invariant; in particular no step fails.\<close>

lemma segment_nth:
  assumes "j < L"
  shows "segment L xs i ! j = (if i * L + j < length xs then Some (xs ! (i * L + j)) else None)"
proof (cases "i * L + j < length xs")
  case True
  then have "j < length (take L (drop (i * L) xs))"
    using assms by simp
  then show ?thesis
    using True assms by (simp add: segment_def Let_def nth_append)
next
  case False
  then have "\<not> j < length (take L (drop (i * L) xs))"
    by (simp add: less_diff_conv add.commute)
  then show ?thesis
    using False assms by (simp add: segment_def Let_def nth_append)
qed

lemma unat_slot:
  fixes LEN :: u32
  assumes "n < unat LEN"
  shows "unat (of_nat n :: u32) = n"
proof -
  have "unat LEN < 2 ^ 32"
    using unsigned_less [of LEN, where 'a = nat] by simp
  then show ?thesis
    using assms by (intro unat_of_nat_u32) simp
qed

lemma par_step_preserves:
  assumes st: "par_step LEN (ts, s) (ts', s')" and inv: "log_inv LEN T ts s ys"
  shows "\<exists>ys'. log_inv LEN T ts' s' ys'"
  using st
proof (cases rule: par_step.cases)
  case (step i t')
  obtain pc td where ti: "ts ! i = (pc, td)"
    by (cases "ts ! i")
  note i = step(2)
  have ts': "ts' = ts[i := t']"
    using step(1) .
  have run: "thread_step LEN (pc, td) s = Some (t', s')"
    using step(3) ti by simp
  have th: "inv_threads LEN ts s ys"
    using inv by (simp add: log_inv_def)
  have tinv: "thread_inv LEN ys s pc"
    using th i ti by (auto simp: inv_threads_def)
  show ?thesis
  proof (cases pc)
    case Idle
    then show ?thesis
    proof (cases td)
      case Nil
      then show ?thesis using run Idle by simp
    next
      case (Cons e es)
      then show ?thesis
        using step_call [OF inv i, of e es] run Idle ti ts' by auto
    qed
  next
    case (Start e)
    obtain np where "next' LEN (sh_cur_pos s) = Inr np"
      "log_inv LEN T (ts[i := (Loaded e (sh_cur_pos s) np, td)]) s ys"
      using step_load [OF inv i, of e td] ti Start by auto
    then show ?thesis
      using run Start ts' by (auto simp: Let_def)
  next
    case (Loaded e pos np)
    show ?thesis
    proof (cases "sh_cur_pos s = pos")
      case True
      then show ?thesis
        using step_cas [OF inv i, of e pos np td] run Loaded ti ts' by auto
    next
      case False
      then show ?thesis
        using step_cas_fail [OF inv i, of e pos np td] run Loaded ti ts' by auto
    qed
  next
    case (Reserved e pos)
    let ?hi = "node_index pos" and ?lo = "of_nat (unat (low pos)) :: u32"
    have own: "owns LEN ys (unat ?hi) (unat (low pos)) e"
      using tinv Reserved by simp
    then have l: "unat (low pos) < unat LEN"
      by (simp add: owns_def)
    have ei: "elem_index LEN pos = Inr ?lo"
      using elem_index_eq [OF l] .
    have ul: "unat ?lo = unat (low pos)"
      using unat_slot [OF l] .
    have z: "(?lo = 0) = (unat (low pos) = 0)"
      using ul by (metis unat_eq_zero)
    have k: "held LEN (ts ! i) = Some (unat ?hi * unat LEN + unat (low pos))"
      by (simp add: ti Reserved)
    note f = owner_facts [OF inv i own k]
    show ?thesis
    proof (cases "unat (low pos) = 0")
      case True
      have "log_inv LEN T (ts[i := (Waiting e ?hi ?lo, td)])
              (s\<lparr>sh_nodes := (sh_nodes s)[unat ?hi := Some (length (sh_heap s))],
                 sh_heap := sh_heap s @ [create_node LEN]\<rparr>) ys"
        using step_reserved_first [OF inv i _ _ ul True, of e td ?hi] ti Reserved by simp
      then show ?thesis
        using run Reserved ts' ei z True f(1,2) by (auto simp: Let_def sh_publish_def)
    next
      case False
      have "log_inv LEN T (ts[i := (Waiting e ?hi ?lo, td)]) s ys"
        using step_reserved_later [OF inv i _ _ ul False, of e td ?hi] ti Reserved by simp
      then show ?thesis
        using run Reserved ts' ei z False by (auto simp: Let_def)
    qed
  next
    case (Waiting e hi lo)
    have own: "owns LEN ys (unat hi) (unat lo) e"
      using tinv Waiting by simp
    have k: "held LEN (ts ! i) = Some (unat hi * unat LEN + unat lo)"
      by (simp add: ti Waiting)
    note f = owner_facts [OF inv i own k]
    have ld: "sh_load s (unat hi) = Inr (sh_nodes s ! unat hi)"
      using f(1,2) by (simp add: sh_load_def)
    show ?thesis
    proof (cases "sh_nodes s ! unat hi")
      case None
      then show ?thesis
        using step_spin [OF inv i, of e hi lo td] run Waiting ti ts' ld by auto
    next
      case (Some p)
      then show ?thesis
        using step_wait [OF inv i, of e hi lo td p] run Waiting ti ts' ld by auto
    qed
  next
    case (Writing e hi lo p)
    have "p < length (sh_heap s) \<and> unat lo < length (sh_heap s ! p) \<and>
          log_inv LEN T (ts[i := (Counting e hi lo, td)])
            (s\<lparr>sh_heap := (sh_heap s)[p := (sh_heap s ! p)[unat lo := Some e]]\<rparr>) ys"
      using step_write [OF inv i, of e hi lo p td] ti Writing by simp
    then show ?thesis
      using run Writing ts' by (auto simp: node_store_def)
  next
    case (Counting e hi lo)
    then show ?thesis
      using step_count [OF inv i, of e hi lo td] run ti ts' by auto
  next
    case (Failed e)
    then show ?thesis
      using tinv by simp
  qed
qed

text \<open>The invariant holds initially and in every reachable state, and it determines the
  state in which all calls have returned.\<close>

lemma run_par_steps:
  assumes "run LEN sched c = Some c'"
  shows "(par_step LEN)\<^sup>*\<^sup>* c c'"
  using assms
proof (induction sched arbitrary: c)
  case Nil
  then show ?case by simp
next
  case (Cons i sched)
  obtain ts s where c: "c = (ts, s)"
    by (cases c)
  have i: "i < length ts"
    using Cons.prems c by (simp split: if_splits)
  obtain t' s' where st: "thread_step LEN (ts ! i) s = Some (t', s')"
    and r: "run LEN sched (ts[i := t'], s') = Some c'"
    using Cons.prems c i by (auto split: option.splits)
  have "par_step LEN c (ts[i := t'], s')"
    unfolding c using i st by (rule par_step.step)
  then show ?case
    using Cons.IH [OF r] by simp
qed

lemma pending_spawn: "sum_list (map pending (spawn todos)) = mset (concat todos)"
  by (induction todos) (simp_all add: spawn_def)

lemma in_flight_spawn: "sum_list (map (in_flight LEN) (spawn todos)) = 0"
  by (induction todos) (simp_all add: spawn_def in_flight_def)

lemma init_inv:
  assumes "0 < unat LEN" "length (concat todos) \<le> unat max_nodes * unat LEN"
  shows "log_inv LEN (mset (concat todos)) (spawn todos) (new_Shared max_nodes) []"
proof -
  have h: "held LEN (spawn todos ! j) = None" if "j < length (spawn todos)" for j
    using that by (simp add: spawn_def)
  have "cur_pos (filled LEN max_nodes ([] :: 'a list)) = 0"
    by (simp add: filled_Nil Array_def)
  then have 0: "inv_cursor LEN (new_Shared max_nodes) ([] :: 'a list)"
    using assms(1) by (simp add: inv_cursor_def new_Shared_def)
  have 1: "inv_threads LEN (spawn todos) (new_Shared max_nodes) []"
    by (simp add: inv_threads_def spawn_def)
  have 2: "inv_unique LEN (spawn todos)"
    using h by (simp add: inv_unique_def)
  have 3: "inv_pointers (new_Shared max_nodes :: 'a Shared)"
    by (simp add: inv_pointers_def new_Shared_def)
  have 4: "inv_table LEN (spawn todos) (new_Shared max_nodes) []"
    by (simp add: inv_table_def new_Shared_def)
  have 5: "inv_heap LEN (spawn todos) (new_Shared max_nodes) []"
    by (simp add: inv_heap_def new_Shared_def)
  have 6: "inv_early LEN (spawn todos) (new_Shared max_nodes) []"
    by (simp add: inv_early_def)
  have 7: "inv_count LEN (spawn todos) (new_Shared max_nodes) []"
    by (simp add: inv_count_def in_flight_spawn new_Shared_def)
  have 8: "inv_elems LEN (mset (concat todos)) (spawn todos) (new_Shared max_nodes) []"
    using assms(2) by (simp add: inv_elems_def pending_spawn new_Shared_def)
  show ?thesis
    using 0 1 2 3 4 5 6 7 8 by (simp add: log_inv_def)
qed

lemma thread_step_max:
  assumes "thread_step LEN t s = Some (t', s')"
  shows "sh_max_nodes_length s' = sh_max_nodes_length s"
proof -
  obtain pc td where t: "t = (pc, td)"
    by (cases t)
  show ?thesis
    using assms unfolding t
    by (cases pc; cases td)
       (auto simp: Let_def sh_publish_def split: sum.splits option.splits if_splits)
qed

lemma par_step_max:
  assumes "par_step LEN (ts, s) (ts', s')"
  shows "sh_max_nodes_length s' = sh_max_nodes_length s"
  using assms by (cases rule: par_step.cases) (auto dest: thread_step_max)

lemma reachable_inv:
  assumes L: "0 < unat LEN" and cap: "length (concat todos) \<le> unat max_nodes * unat LEN"
    and r: "(par_step LEN)\<^sup>*\<^sup>* (spawn todos, new_Shared max_nodes) (ts, s)"
  shows "sh_max_nodes_length s = max_nodes \<and> (\<exists>ys. log_inv LEN (mset (concat todos)) ts s ys)"
proof -
  have "sh_max_nodes_length (snd c) = max_nodes \<and>
        (\<exists>ys. log_inv LEN (mset (concat todos)) (fst c) (snd c) ys)"
    if "(par_step LEN)\<^sup>*\<^sup>* (spawn todos, new_Shared max_nodes) c" for c
    using that
  proof (induction rule: rtranclp_induct)
    case base
    show ?case
      using init_inv [OF L cap] by (auto simp: new_Shared_def)
  next
    case (step c c')
    obtain ys where inv: "log_inv LEN (mset (concat todos)) (fst c) (snd c) ys"
      using step.IH by blast
    have st: "par_step LEN (fst c, snd c) (fst c', snd c')"
      using step.hyps(2) by simp
    show ?case
      using par_step_preserves [OF st inv] par_step_max [OF st] step.IH by simp
  qed
  from this [OF r] show ?thesis by simp
qed

lemma holder_finished:
  assumes "finished ts"
  shows "\<not> holder LEN Q ts k"
  using assms by (auto simp: finished_def holder_def list_all_length)

lemma final_state:
  assumes inv: "log_inv LEN T ts s ys" and fin: "finished ts"
  shows "mset ys = T \<and> view s = filled LEN (sh_max_nodes_length s) ys"
proof -
  let ?L = "unat LEN" and ?mx = "sh_max_nodes_length s"
  have c: "0 < ?L" "length (sh_nodes s) = unat ?mx" "sh_cur_pos s = cur_pos (filled LEN ?mx ys)"
    using inv by (simp_all add: log_inv_def inv_cursor_def)
  have tb: "inv_table LEN ts s ys" and hp: "inv_heap LEN ts s ys"
    using inv by (simp_all add: log_inv_def)
  have p0: "sum_list (map pending ts) = {#}" and f0: "sum_list (map (in_flight LEN) ts) = 0"
    using fin by (induction ts) (auto simp: finished_def in_flight_def)
  have T: "mset ys = T"
    using inv p0 by (simp add: log_inv_def inv_elems_def)
  have n: "sh_elements_num s = of_nat (length ys)"
    using inv f0 by (simp add: log_inv_def inv_count_def)
  have nodes: "map (map_option (\<lambda>p. sh_heap s ! p)) (sh_nodes s) =
               map (\<lambda>i. if i * ?L < length ys then Some (segment ?L ys i) else None) [0..<unat ?mx]"
  proof (rule nth_equalityI)
    show "length (map (map_option (\<lambda>p. sh_heap s ! p)) (sh_nodes s)) =
          length (map (\<lambda>i. if i * ?L < length ys then Some (segment ?L ys i) else None) [0..<unat ?mx])"
      using c by simp
  next
    fix i assume "i < length (map (map_option (\<lambda>p. sh_heap s ! p)) (sh_nodes s))"
    then have i: "i < length (sh_nodes s)" by simp
    have null: "(sh_nodes s ! i = None) = (length ys \<le> i * ?L)"
      using tb i holder_finished [OF fin] by (simp add: inv_table_def)
    show "map (map_option (\<lambda>p. sh_heap s ! p)) (sh_nodes s) ! i =
          map (\<lambda>i. if i * ?L < length ys then Some (segment ?L ys i) else None) [0..<unat ?mx] ! i"
    proof (cases "sh_nodes s ! i")
      case None
      then show ?thesis
        using i c null by simp
    next
      case (Some p)
      have "sh_heap s ! p = segment ?L ys i"
      proof (rule nth_equalityI)
        show "length (sh_heap s ! p) = length (segment ?L ys i)"
          using hp i Some by (simp add: inv_heap_def)
      next
        fix j assume "j < length (sh_heap s ! p)"
        then have j: "j < ?L"
          using hp i Some by (simp add: inv_heap_def)
        show "sh_heap s ! p ! j = segment ?L ys i ! j"
          using hp i Some j holder_finished [OF fin] by (simp add: inv_heap_def segment_nth)
      qed
      then show ?thesis
        using i c null Some by simp
    qed
  qed
  have "view s = filled LEN ?mx ys"
    using c n nodes by (simp add: view_def filled_def Let_def)
  then show ?thesis
    using T by simp
qed

text \<open>A thread that is neither finished nor waiting for a segment has a step that moves
  it; a step changes the table only by the store of a new node.\<close>

lemma productive:
  assumes "(pc, td) \<noteq> (Idle, [])" "\<And>e. pc \<noteq> Failed e"
    "\<And>e hi lo. pc = Waiting e hi lo \<Longrightarrow> sh_load s (unat hi) \<noteq> Inr None"
  shows "\<exists>t' s'. thread_step LEN (pc, td) s = Some (t', s') \<and> t' \<noteq> (pc, td)"
proof (cases pc)
  case Idle
  then show ?thesis using assms(1) by (cases td) auto
next
  case (Start e)
  then show ?thesis by (auto simp: Let_def split: sum.splits)
next
  case (Loaded e pos np)
  then show ?thesis by auto
next
  case (Reserved e pos)
  then show ?thesis by (auto simp: Let_def split: sum.splits)
next
  case (Waiting e hi lo)
  then show ?thesis using assms(3) [OF Waiting] by (auto split: sum.splits option.splits)
next
  case (Writing e hi lo p)
  then show ?thesis by (auto split: sum.splits)
next
  case (Counting e hi lo)
  then show ?thesis by auto
next
  case (Failed e)
  then show ?thesis using assms(2) by simp
qed

lemma nodes_change:
  assumes "thread_step LEN (pc, td) s = Some (t', s')" "sh_nodes s' \<noteq> sh_nodes s"
  shows "\<exists>e pos. pc = Reserved e pos \<and> elem_index LEN pos = Inr 0 \<and>
           sh_nodes s' = (sh_nodes s)[unat (node_index pos) := Some (length (sh_heap s))]"
  using assms
  by (cases pc; cases td)
     (auto simp: Let_def sh_publish_def split: sum.splits option.splits if_splits)

lemma elem_index_zero:
  assumes "elem_index LEN pos = Inr 0"
  shows "low pos = 0"
proof -
  have l: "low pos < ucast LEN" and z: "(ucast (low pos) :: u32) = 0"
    using assms by (auto simp: elem_index_def split: if_splits)
  have "unat (low pos) < unat LEN"
    using l by (simp add: word_less_nat_alt)
  then have "unat (ucast (low pos) :: u32) = unat (low pos)"
    using elem_index_eq [of pos LEN] assms unat_slot [of "unat (low pos)" LEN] by simp
  then show ?thesis
    using z by (metis unat_eq_zero unsigned_0)
qed

section \<open>The claims\<close>

subsection \<open>C4: the successor of a cursor value\<close>

text \<open>
  C4, as amended. For every cursor value whose slot index is less than \<^verbatim>\<open>LENGTH\<close>
  (\<open>elem_index\<close> returns it) and whose segment index is less than \<open>2^32 - 1\<close> (the
  successor's own assertion \<^verbatim>\<open>hi < HIGH_MASK\<close>), the successor function returns a cursor
  with the same segment index and the slot index incremented by one, except when the slot
  index is \<^verbatim>\<open>LENGTH - 1\<close>: then the slot index becomes 0 and the segment index increments
  by exactly 1, without wrapping.
\<close>

theorem next'_successor:
  assumes slot: "elem_index LEN n = Inr lo"
    and seg: "unat (node_index n) < 2 ^ 32 - 1"
  shows "\<exists>n'. next' LEN n = Inr n' \<and>
           (if unat lo = unat LEN - 1
            then unat (node_index n') = unat (node_index n) + 1 \<and> elem_index LEN n' = Inr 0
            else node_index n' = node_index n \<and> elem_index LEN n' = Inr (lo + 1))"
proof -
  have lo: "unat (low n) < unat LEN" and lo_eq: "unat lo = unat (low n)"
    using slot by (rule elem_index_Inr)+
  obtain n' where n': "next' LEN n = Inr n'"
    and u: "unat n' = (if unat (low n) + 1 = unat LEN
                      then (unat (node_index n) + 1) * 2 ^ 32 else unat n + 1)"
    using next'_unat [OF lo seg] by blast
  have L32: "unat LEN < 2 ^ 32"
    by (rule unat_lt_2p32)
  show ?thesis
  proof (cases "unat lo = unat LEN - 1")
    case True
    then have wrap: "unat (low n) + 1 = unat LEN"
      using lo lo_eq by simp
    then have un': "unat n' = (unat (node_index n) + 1) * 2 ^ 32"
      using u by simp
    have "unat (node_index n') = unat (node_index n) + 1"
      by (simp add: unat_node_index [of n'] un')
    moreover have "unat (low n') = 0"
      by (simp add: unat_low [of n'] un')
    then have "elem_index LEN n' = Inr 0"
      using lo by (simp add: elem_index_eq)
    ultimately show ?thesis
      using n' True by simp
  next
    case False
    then have nowrap: "unat (low n) + 1 \<noteq> unat LEN" and lt: "unat (low n) + 1 < unat LEN"
      using lo lo_eq by simp_all
    then have un': "unat n' = unat n + 1"
      using u by simp
    have sp: "unat n = unat (node_index n) * 2 ^ 32 + unat (low n)"
      by (rule unat_split_cursor)
    have low32: "unat (low n) + 1 < 2 ^ 32"
      using lt L32 by simp
    have "unat (node_index n') = unat (node_index n)"
      using low32 by (simp add: unat_node_index [of n'] un' sp)
    then have nidx: "node_index n' = node_index n"
      by (simp add: word_unat_eq_iff)
    have l': "unat (low n') = unat (low n) + 1"
      using low32 by (simp add: unat_low [of n'] un' sp)
    have s1: "unat (lo + 1) = unat lo + 1"
      using low32 lo_eq by (simp add: unat_word_ariths)
    have s2: "unat (of_nat (unat (low n')) :: u32) = unat (low n')"
      using low32 l' by (intro unat_of_nat_u32) simp
    have "unat (of_nat (unat (low n')) :: u32) = unat (lo + 1)"
      using s1 s2 l' lo_eq by (simp only:)
    then have "(of_nat (unat (low n')) :: u32) = lo + 1"
      by (simp only: word_unat_eq_iff)
    then have "elem_index LEN n' = Inr (lo + 1)"
      using lt l' by (simp add: elem_index_eq)
    then show ?thesis
      using n' False nidx by simp
  qed
qed

text \<open>The theorem at the last slot of segment 0 of a log with 256-element segments: the
  successor is slot 0 of segment 1.\<close>

theorem next'_successor_witness:
  "elem_index 256 255 = Inr 255 \<and> unat (node_index 255) < 2 ^ 32 - 1 \<and>
   (\<exists>n'. next' 256 255 = Inr n' \<and> unat (node_index n') = 1 \<and> elem_index 256 n' = Inr 0)"
proof -
  have a: "elem_index 256 255 = Inr 255"
    by (simp add: elem_index_def low_def LOW_MASK_def TMP_def)
  have b: "unat (node_index 255) < 2 ^ 32 - 1"
    by (simp add: node_index_def high_def HIGH_MASK_def LOW_MASK_def TMP_def)
  have c: "unat (node_index 255) = 0"
    by (simp add: node_index_def high_def HIGH_MASK_def LOW_MASK_def TMP_def)
  show ?thesis
    using next'_successor [OF a b] a b c by simp
qed

text \<open>
  C4 as stated, for every cursor value whose slot index is less than \<^verbatim>\<open>LENGTH\<close>, fails at
  the cursor (segment \<open>2^32 - 1\<close>, slot 0) of a log with 256-element segments: the slot
  index 0 is less than 256, and the successor function stops at its assertion
  \<^verbatim>\<open>hi < HIGH_MASK\<close> instead of returning a cursor.
\<close>

theorem next'_last_segment_counterexample:
  "elem_index 256 0xFFFFFFFF00000000 = Inr 0 \<and>
   next' 256 0xFFFFFFFF00000000 = Inl AssertionFailed"
  by (simp add: elem_index_def next'_def low_def high_def HIGH_MASK_def LOW_MASK_def TMP_def)

subsection \<open>C9: the cursor never decreases\<close>

text \<open>
  C9. The successor function is strictly increasing on the cursor values it returns a result
  for (those that pass its assertions): the result is greater than the argument as an
  unsigned 64-bit value. Every \<open>add\<close> that completes replaces the cursor by its successor,
  so it increases the cursor. The other operations that do not reset the log,
  \<open>objs_num\<close> and \<open>iterate_elements\<close>, return no new state: they leave the cursor as it is.
\<close>

theorem cursor_monotone:
  "(next' LEN n = Inr n' \<longrightarrow> n < n') \<and>
   (add LEN elem a = Some (Inr a') \<longrightarrow>
      next' LEN (cur_pos a) = Inr (cur_pos a') \<and> cur_pos a < cur_pos a')"
proof -
  have mono: "m < m'" if nx: "next' LEN m = Inr m'" for m m'
  proof -
    have lo: "unat (low m) < unat LEN" and hi: "unat (node_index m) < 2 ^ 32 - 1"
      using nx by (rule next'_asserts)+
    obtain k where k: "next' LEN m = Inr k"
      and u: "unat k = (if unat (low m) + 1 = unat LEN
                        then (unat (node_index m) + 1) * 2 ^ 32 else unat m + 1)"
      using next'_unat [OF lo hi] by blast
    have km: "k = m'"
      using k nx by simp
    have sp: "unat m = unat (node_index m) * 2 ^ 32 + unat (low m)"
      by (rule unat_split_cursor)
    have "unat (low m) < 2 ^ 32"
      using lo unat_lt_2p32 [of LEN] by simp
    then have "unat m < unat k"
      using u sp by (simp split: if_splits)
    then show ?thesis
      by (simp add: km [symmetric] word_less_nat_alt)
  qed
  have "next' LEN (cur_pos a) = Inr (cur_pos a')" if ad: "add LEN elem a = Some (Inr a')"
  proof -
    from ad obtain np where np: "next' LEN (cur_pos a) = Inr np"
      and r: "add_reserved LEN elem (cur_pos a) (a\<lparr>cur_pos := np\<rparr>) = Some (Inr a')"
      by (auto simp: add_eq split: sum.splits)
    have "cur_pos a' = np"
      using add_reserved_cur_pos [OF r] by simp
    then show ?thesis
      using np by simp
  qed
  then show ?thesis
    using mono by blast
qed

text \<open>The theorem at the cursor 255 of a log with 256-element segments, and at the first
  insertion into a fresh log with 4-element segments.\<close>

theorem cursor_monotone_witness:
  "next' 256 255 = Inr 4294967296 \<and> (255 :: u64) < 4294967296 \<and>
   add 4 (7 :: u32) (Array 1) =
     Some (Inr \<lparr>max_nodes_length = 1, cur_pos = 1,
                nodes = [Some [Some 7, None, None, None]], elements_num = 1\<rparr>) \<and>
   next' 4 (cur_pos (Array 1 :: u32 Array)) = Inr 1 \<and>
   cur_pos (Array 1 :: u32 Array) < 1"
proof -
  have a: "next' 256 255 = Inr 4294967296"
    by (simp add: next'_def low_def high_def HIGH_MASK_def LOW_MASK_def TMP_def)
  have b: "add 4 (7 :: u32) (Array 1) =
     Some (Inr \<lparr>max_nodes_length = 1, cur_pos = 1,
                nodes = [Some [Some 7, None, None, None]], elements_num = 1\<rparr>)"
    by code_simp
  have c: "(255 :: u64) < 4294967296"
    by (rule cursor_monotone [THEN conjunct1, THEN mp, OF a])
  have d: "next' 4 (cur_pos (Array 1 :: u32 Array)) = Inr 1 \<and>
      cur_pos (Array 1 :: u32 Array) < 1"
    using cursor_monotone [THEN conjunct2, THEN mp, OF b] by (simp only: Array.simps)
  show ?thesis
    using a b c d by blast
qed

subsection \<open>C2: the count and the replay after completed insertions\<close>

text \<open>
  C2, as amended. After \<open>M\<close> completed \<open>add\<close> calls of elements \<open>e1..eM\<close> into a fresh log,
  with \<open>M\<close> less than max segments times \<^verbatim>\<open>LENGTH\<close>, \<^verbatim>\<open>count()\<close> returns \<open>M\<close> modulo
  \<open>2^32\<close> (so \<open>M\<close> itself when \<open>M < 2^32\<close>), and \<^verbatim>\<open>iterate_elements\<close> returns having
  visited exactly \<open>e1..eM\<close>, each once, in the order of insertion (so the multiset of the
  visited elements is that of the inserted ones). Element \<open>k\<close> lies in segment
  \<open>k div LENGTH\<close> at slot \<open>k mod LENGTH\<close>, so the replay goes through the segments in
  ascending index order, the full ones in full and the last one up to the slot index of
  the cursor. The visitor is arbitrary; the replay with a visitor that lists its arguments
  returns the list \<open>xs\<close> itself.
\<close>

theorem adds_count_and_replay:
  assumes "length xs < unat max_nodes * unat LEN"
  shows "count_after LEN max_nodes xs = Some (length xs mod 2 ^ 32) \<and>
         replay_after LEN max_nodes xs = Some (Inr xs) \<and>
         (\<exists>a. adds LEN xs (Array max_nodes) = Some (Inr a) \<and>
              (\<forall>visit v. iterate_elements LEN visit a v = Inr (fold visit xs v)) \<and>
              (\<forall>k<length xs. \<exists>node. nodes a ! (k div unat LEN) = Some node \<and>
                                    node ! (k mod unat LEN) = Some (xs ! k)))"
proof -
  have L: "0 < unat LEN"
    using assms by (cases "unat LEN") simp_all
  have le: "length xs \<le> unat max_nodes * unat LEN"
    using assms by simp
  have "count_after LEN max_nodes xs = Some (length xs mod 2 ^ 32)"
    using L le by (rule count_after_eq)
  moreover have "replay_after LEN max_nodes xs = Some (Inr xs)"
    using L le assms by (simp add: replay_after_eq)
  moreover have "adds LEN xs (Array max_nodes) = Some (Inr (filled LEN max_nodes xs))"
    using L le by (rule adds_Array)
  moreover have "iterate_elements LEN visit (filled LEN max_nodes xs) v = Inr (fold visit xs v)"
    for visit :: "'a \<Rightarrow> 'b \<Rightarrow> 'b" and v
    using L assms by (rule iterate_elements_filled)
  moreover have "\<exists>node. nodes (filled LEN max_nodes xs) ! (k div unat LEN) = Some node \<and>
      node ! (k mod unat LEN) = Some (xs ! k)" if "k < length xs" for k
    using L that le by (rule filled_layout)
  ultimately show ?thesis
    by blast
qed

text \<open>The theorem for three insertions into a log of three 2-element segments.\<close>

theorem adds_count_and_replay_witness:
  "count_after 2 3 [10, 20, 30 :: u32] = Some 3 \<and>
   replay_after 2 3 [10, 20, 30 :: u32] = Some (Inr [10, 20, 30])"
proof -
  have "length [10, 20, 30 :: u32] < unat (3 :: u32) * unat (2 :: u32)"
    by simp
  from adds_count_and_replay [OF this, where 'b = unit] show ?thesis
    by simp
qed

text \<open>
  C2 as stated fails for \<open>M = 2^32\<close> insertions into a log of \<open>2^24 + 1\<close> segments of 256
  elements (\<open>M\<close> is below the capacity \<open>2^32 + 256\<close>): the element counter is an \<^verbatim>\<open>uint\<close>
  and has wrapped, so \<^verbatim>\<open>count()\<close> returns 0 and not \<open>M\<close>.
\<close>

theorem count_wraps_counterexample:
  "count_after 256 16777217 (replicate 4294967296 (0 :: u32)) = Some 0"
proof -
  have "0 < unat (256 :: u32)"
    by simp
  moreover have "length (replicate 4294967296 (0 :: u32)) \<le> unat (16777217 :: u32) * unat (256 :: u32)"
    by (simp only: length_replicate) simp
  ultimately have "count_after 256 16777217 (replicate 4294967296 (0 :: u32)) =
      Some (length (replicate 4294967296 (0 :: u32)) mod 2 ^ 32)"
    by (rule count_after_eq)
  then show ?thesis
    by (simp only: length_replicate) simp
qed

subsection \<open>C3: allocation of segments\<close>

text \<open>
  C3. In the state \<open>a\<close> of a log after \<open>M\<close> completed \<open>add\<close> calls since its construction,
  with segment capacity \<open>L\<close>, entry \<open>i\<close> of the segment table is non-null exactly when
  \<open>i < ceil(M / L)\<close>, so exactly \<open>ceil(M / L)\<close> entries are non-null and all others are
  null. Every further \<open>add\<close> that completes turns an entry from null to non-null exactly
  when that entry is the segment it reserved and the slot index it reserved is 0, and it
  never turns a non-null entry back to null. So between resets an entry becomes non-null
  once, at the insertion that reserves slot 0 of its segment.
\<close>

theorem segment_allocation:
  assumes run: "adds LEN xs (Array max_nodes) = Some (Inr a)"
  shows "length (nodes a) = unat max_nodes \<and>
         (\<forall>i<unat max_nodes.
            (nodes a ! i \<noteq> None) = (i < (length xs + unat LEN - 1) div unat LEN)) \<and>
         length (filter (\<lambda>p. p \<noteq> None) (nodes a)) = (length xs + unat LEN - 1) div unat LEN \<and>
         (\<forall>x a'. add LEN x a = Some (Inr a') \<longrightarrow>
            (\<forall>i<unat max_nodes.
               (nodes a ! i = None \<and> nodes a' ! i \<noteq> None) =
                 (i = unat (node_index (cur_pos a)) \<and> elem_index LEN (cur_pos a) = Inr 0) \<and>
               (nodes a ! i \<noteq> None \<longrightarrow> nodes a' ! i \<noteq> None)))"
proof (cases "unat LEN = 0")
  case True
  then have "xs = []"
    using adds_completes(3) [OF run] by auto
  then have a: "a = Array max_nodes"
    using run by simp
  have "add LEN x a \<noteq> Some (Inr a')" for x a'
    by (simp add: add_zero_length [OF True])
  then show ?thesis
    using True \<open>xs = []\<close> by (simp add: a Array_def)
next
  case False
  then have L: "0 < unat LEN"
    by simp
  let ?L = "unat LEN" and ?M = "length xs"
  have a: "a = filled LEN max_nodes xs" and M: "?M \<le> unat max_nodes * ?L"
    using adds_completes [OF run] by simp_all
  have len: "length (nodes a) = unat max_nodes"
    by (simp add: a)
  have alloc: "(nodes a ! i \<noteq> None) = (i < (?M + ?L - 1) div ?L)" if "i < unat max_nodes" for i
  proof -
    have "(nodes a ! i \<noteq> None) = (i * ?L < ?M)"
      using that by (simp add: a)
    then show ?thesis
      using L by (simp only: ceil_div_iff)
  qed
  have cnt: "length (filter (\<lambda>p. p \<noteq> None) (nodes a)) = (?M + ?L - 1) div ?L"
    unfolding a using L M by (rule allocated_count_filled)
  have step: "(nodes a ! i = None \<and> nodes a' ! i \<noteq> None) =
        (i = unat (node_index (cur_pos a)) \<and> elem_index LEN (cur_pos a) = Inr 0) \<and>
      (nodes a ! i \<noteq> None \<longrightarrow> nodes a' ! i \<noteq> None)"
    if ad: "add LEN x a = Some (Inr a')" and i: "i < unat max_nodes" for x a' i
  proof -
    have "adds LEN (xs @ [x]) (Array max_nodes) = Some (Inr a')"
      using run ad by (simp add: adds_append)
    then have a': "a' = filled LEN max_nodes (xs @ [x])"
      by (rule adds_completes(1))
    have ni: "unat (node_index (cur_pos a)) = ?M div ?L"
      unfolding a using L M by (rule node_index_filled)
    have lo32: "?M mod ?L < 2 ^ 32"
      using L unat_lt_2p32 [of LEN] mod_less_divisor [of ?L ?M] by linarith
    have "((of_nat (?M mod ?L) :: u32) = 0) = (?M mod ?L = 0)"
      using unat_of_nat_u32 [OF lo32] by (auto simp: word_unat_eq_iff)
    then have ei: "(elem_index LEN (cur_pos a) = Inr 0) = (?M mod ?L = 0)"
      using L M by (simp add: a elem_index_filled)
    have split: "?M div ?L * ?L + ?M mod ?L = ?M"
      by (rule div_mult_mod_eq)
    have key: "(\<not> i * ?L < ?M \<and> i * ?L < Suc ?M) = (i = ?M div ?L \<and> ?M mod ?L = 0)"
    proof
      assume "\<not> i * ?L < ?M \<and> i * ?L < Suc ?M"
      then have "?M = i * ?L"
        by linarith
      then show "i = ?M div ?L \<and> ?M mod ?L = 0"
        using L by simp
    next
      assume "i = ?M div ?L \<and> ?M mod ?L = 0"
      then show "\<not> i * ?L < ?M \<and> i * ?L < Suc ?M"
        using split by simp
    qed
    have n1: "(nodes a ! i = None) = (\<not> i * ?L < ?M)"
      using i by (simp add: a)
    have n2: "(nodes a' ! i \<noteq> None) = (i * ?L < Suc ?M)"
      using i by (simp add: a')
    have "i * ?L < ?M \<Longrightarrow> i * ?L < Suc ?M"
      by simp
    then show ?thesis
      unfolding n1 n2 ni ei key [symmetric] by blast
  qed
  show ?thesis
    using len alloc cnt step by blast
qed

text \<open>The theorem for four insertions into a log of two 4-element segments: one entry is
  allocated, and the fifth insertion, which reserves slot 0 of segment 1, allocates
  entry 1.\<close>

theorem segment_allocation_witness:
  "adds 4 [1, 2, 3, 4 :: u32] (Array 2) =
     Some (Inr \<lparr>max_nodes_length = 2, cur_pos = 4294967296,
                nodes = [Some [Some 1, Some 2, Some 3, Some 4], None], elements_num = 4\<rparr>) \<and>
   length (filter (\<lambda>p. p \<noteq> None) [Some [Some 1, Some 2, Some 3, Some (4 :: u32)], None]) = 1 \<and>
   (\<exists>a'. add 4 (5 :: u32)
           \<lparr>max_nodes_length = 2, cur_pos = 4294967296,
              nodes = [Some [Some 1, Some 2, Some 3, Some 4], None], elements_num = 4\<rparr> =
         Some (Inr a') \<and> nodes a' ! 1 \<noteq> None)"
proof -
  let ?a = "\<lparr>max_nodes_length = 2, cur_pos = 4294967296,
             nodes = [Some [Some 1, Some 2, Some 3, Some (4 :: u32)], None],
             elements_num = 4\<rparr>"
  have run: "adds 4 [1, 2, 3, 4 :: u32] (Array 2) = Some (Inr ?a)"
    by code_simp
  have ni: "unat (node_index (4294967296 :: u64)) = 1"
    by (simp add: node_index_def high_def HIGH_MASK_def LOW_MASK_def TMP_def)
  have ei: "elem_index 4 (4294967296 :: u64) = Inr 0"
    by (simp add: elem_index_def low_def LOW_MASK_def TMP_def)
  obtain a' where a': "add 4 (5 :: u32) ?a = Some (Inr a')"
    using add_filled [of 4 "[1, 2, 3, 4 :: u32]" 2 5] adds_completes(1) [OF run] by simp
  note facts = segment_allocation [OF run]
  have cnt: "length (filter (\<lambda>p. p \<noteq> None) (nodes ?a)) =
      (length [1, 2, 3, 4 :: u32] + unat (4 :: u32) - 1) div unat (4 :: u32)"
    using facts by blast
  have st: "\<forall>x a'. add 4 x ?a = Some (Inr a') \<longrightarrow>
      (\<forall>i<unat (2 :: u32).
         (nodes ?a ! i = None \<and> nodes a' ! i \<noteq> None) =
           (i = unat (node_index (cur_pos ?a)) \<and> elem_index 4 (cur_pos ?a) = Inr 0) \<and>
         (nodes ?a ! i \<noteq> None \<longrightarrow> nodes a' ! i \<noteq> None))"
    using facts by blast
  have one: "1 < unat (2 :: u32)"
    by simp
  have "(nodes ?a ! 1 = None \<and> nodes a' ! 1 \<noteq> None) =
      (1 = unat (node_index (cur_pos ?a)) \<and> elem_index 4 (cur_pos ?a) = Inr 0)"
    using st [rule_format, OF a' one] by blast
  then have "nodes a' ! 1 \<noteq> None"
    using ni ei by simp
  then show ?thesis
    using run cnt a' by auto
qed

subsection \<open>C10: what \<open>reset\<close> frees\<close>

text \<open>
  C10. Let \<open>a\<close> be the state of a log after \<open>M\<close> completed \<open>add\<close> calls since its
  construction (or since a reset that returned, which leaves the constructed state).
  \<^verbatim>\<open>reset\<close> calls \<^verbatim>\<open>free_node\<close> on the table entries at the indices 0 through the cursor's
  segment index inclusive, with no test for null: it returns normally exactly when every
  one of these is an entry of the table that is not null. That is so if and only if \<open>M\<close>
  is at least 1 and not a multiple of \<^verbatim>\<open>LENGTH\<close>; then \<^verbatim>\<open>reset\<close> returns the state of a
  freshly constructed log. Otherwise the entry at the cursor's segment index is not
  allocated: \<^verbatim>\<open>free_node\<close> dereferences null there, or, when the table is full, the index
  is the length of the table.
\<close>

theorem reset_frees_through_cursor:
  assumes run: "adds LEN xs (Array max_nodes) = Some (Inr a)"
  shows "((\<exists>a'. reset a = Inr a') =
            list_all (allocated a) [0..<Suc (unat (node_index (cur_pos a)))]) \<and>
         list_all (allocated a) [0..<Suc (unat (node_index (cur_pos a)))] =
            (1 \<le> length xs \<and> length xs mod unat LEN \<noteq> 0) \<and>
         reset a =
           (if 1 \<le> length xs \<and> length xs mod unat LEN \<noteq> 0 then Inr (Array max_nodes)
            else if unat (node_index (cur_pos a)) < unat max_nodes then Inl NullDereference
            else Inl OutOfBounds)"
proof -
  let ?M = "length xs" and ?L = "unat LEN"
  have res: "reset a =
      (if 1 \<le> ?M \<and> ?M mod ?L \<noteq> 0 then Inr (Array max_nodes)
       else if unat (node_index (cur_pos a)) < unat max_nodes then Inl NullDereference
       else Inl OutOfBounds)"
  proof (cases "xs = []")
    case True
    then have "a = Array max_nodes"
      using run by simp
    moreover have "unat (node_index (cur_pos (Array max_nodes :: 'a Array))) = 0"
      by (simp add: Array_def node_index_def high_def)
    ultimately show ?thesis
      using True by (simp add: reset_Array)
  next
    case False
    have a: "a = filled LEN max_nodes xs" and M: "?M \<le> unat max_nodes * ?L"
      and L: "0 < ?L"
      using adds_completes [OF run] False by simp_all
    have ni: "unat (node_index (cur_pos a)) = ?M div ?L"
      unfolding a using L M by (rule node_index_filled)
    have c2: "(?M < unat max_nodes * ?L) = (unat (node_index (cur_pos a)) < unat max_nodes)"
      using L by (simp add: ni div_less_iff_less_mult)
    have c1: "(xs \<noteq> [] \<and> ?M mod ?L \<noteq> 0) = (1 \<le> ?M \<and> ?M mod ?L \<noteq> 0)"
      using False by (simp add: Suc_le_eq)
    have "reset a =
        (if xs \<noteq> [] \<and> ?M mod ?L \<noteq> 0 then Inr (Array max_nodes)
         else if ?M < unat max_nodes * ?L then Inl NullDereference
         else Inl OutOfBounds)"
      unfolding a using L M by (rule reset_filled)
    then show ?thesis
      by (simp only: c1 c2)
  qed
  have gen: "(\<exists>a'. reset a = Inr a') =
      list_all (allocated a) [0..<Suc (unat (node_index (cur_pos a)))]"
    by (rule reset_succeeds_iff)
  have "(\<exists>a'. reset a = Inr a') = (1 \<le> ?M \<and> ?M mod ?L \<noteq> 0)"
    unfolding res by simp
  then have "list_all (allocated a) [0..<Suc (unat (node_index (cur_pos a)))] =
      (1 \<le> ?M \<and> ?M mod ?L \<noteq> 0)"
    unfolding gen .
  then show ?thesis
    using gen res by blast
qed

text \<open>The theorem for a log of two 4-element segments: after three insertions \<^verbatim>\<open>reset\<close>
  returns a fresh log; after four it dereferences null.\<close>

theorem reset_frees_through_cursor_witness:
  "(\<exists>a. adds 4 [1, 2, 3 :: u32] (Array 2) = Some (Inr a) \<and> reset a = Inr (Array 2)) \<and>
   (\<exists>a. adds 4 [1, 2, 3, 4 :: u32] (Array 2) = Some (Inr a) \<and> reset a = Inl NullDereference)"
proof -
  let ?a3 = "\<lparr>max_nodes_length = 2, cur_pos = 3,
              nodes = [Some [Some 1, Some 2, Some (3 :: u32), None], None],
              elements_num = 3\<rparr>"
  let ?a4 = "\<lparr>max_nodes_length = 2, cur_pos = 4294967296,
              nodes = [Some [Some 1, Some 2, Some 3, Some (4 :: u32)], None],
              elements_num = 4\<rparr>"
  have r3: "adds 4 [1, 2, 3 :: u32] (Array 2) = Some (Inr ?a3)"
    by code_simp
  have r4: "adds 4 [1, 2, 3, 4 :: u32] (Array 2) = Some (Inr ?a4)"
    by code_simp
  have ni: "unat (node_index (4294967296 :: u64)) = 1"
    by (simp add: node_index_def high_def HIGH_MASK_def LOW_MASK_def TMP_def)
  have "reset ?a3 =
      (if 1 \<le> length [1, 2, 3 :: u32] \<and> length [1, 2, 3 :: u32] mod unat (4 :: u32) \<noteq> 0
       then Inr (Array 2)
       else if unat (node_index (cur_pos ?a3)) < unat (2 :: u32) then Inl NullDereference
       else Inl OutOfBounds)"
    using reset_frees_through_cursor [OF r3] by blast
  then have w3: "reset ?a3 = Inr (Array 2)"
    by simp
  have "reset ?a4 =
      (if 1 \<le> length [1, 2, 3, 4 :: u32] \<and> length [1, 2, 3, 4 :: u32] mod unat (4 :: u32) \<noteq> 0
       then Inr (Array 2)
       else if unat (node_index (cur_pos ?a4)) < unat (2 :: u32) then Inl NullDereference
       else Inl OutOfBounds)"
    using reset_frees_through_cursor [OF r4] by blast
  then have w4: "reset ?a4 = Inl NullDereference"
    using ni by simp
  show ?thesis
    using r3 r4 w3 w4 by blast
qed

subsection \<open>C6 and C7: \<open>reset\<close> and the replay at a segment boundary\<close>

text \<open>
  C6 at its failing inputs. \<^verbatim>\<open>reset\<close> of a freshly constructed log of one segment (and so
  its destructor), and of a log of two 256-element segments after 256 insertions, does not
  restore the initial state: the cursor's slot index is 0, the table entry at the cursor's
  segment index is still null, and \<^verbatim>\<open>free_node\<close> dereferences it.
\<close>

theorem reset_null_dereference:
  "reset (Array 1 :: u32 Array) = Inl NullDereference \<and>
   destroy (Array 1 :: u32 Array) = Inl NullDereference \<and>
   reset_after 256 2 (replicate 256 (0 :: u32)) = Some (Inl NullDereference)"
proof -
  have "reset (Array 1 :: u32 Array) = Inl NullDereference"
    by (simp add: reset_def Array_def node_index_def high_def HIGH_MASK_def LOW_MASK_def
        TMP_def nodes_load_def free_node_def)
  moreover from this have "destroy (Array 1 :: u32 Array) = Inl NullDereference"
    by (simp add: destroy_def)
  moreover have "reset_after 256 2 (replicate 256 (0 :: u32)) = Some (Inl NullDereference)"
  proof -
    have "0 < unat (256 :: u32)"
      by simp
    moreover have "length (replicate 256 (0 :: u32)) \<le> unat (2 :: u32) * unat (256 :: u32)"
      by (simp only: length_replicate) simp
    ultimately have "reset_after 256 2 (replicate 256 (0 :: u32)) =
        Some (if replicate 256 (0 :: u32) \<noteq> [] \<and>
                 length (replicate 256 (0 :: u32)) mod unat (256 :: u32) \<noteq> 0
              then Inr (Array 2)
              else if length (replicate 256 (0 :: u32)) < unat (2 :: u32) * unat (256 :: u32)
              then Inl NullDereference else Inl OutOfBounds)"
      by (rule reset_after_eq)
    then show ?thesis
      by (simp only: length_replicate) simp
  qed
  ultimately show ?thesis
    by blast
qed

text \<open>
  C7 at its failing input. After 256 insertions into a log of one 256-element segment (the
  number the table is sized for), the cursor is (segment 1, slot 0): \<^verbatim>\<open>iterate_elements\<close>
  and \<^verbatim>\<open>reset\<close> both access \<^verbatim>\<open>_nodes[1]\<close>, outside the table of one entry.
\<close>

theorem full_table_out_of_bounds:
  "replay_after 256 1 (replicate 256 (0 :: u32)) = Some (Inl OutOfBounds) \<and>
   reset_after 256 1 (replicate 256 (0 :: u32)) = Some (Inl OutOfBounds)"
proof -
  have L: "0 < unat (256 :: u32)"
    by simp
  have M: "length (replicate 256 (0 :: u32)) \<le> unat (1 :: u32) * unat (256 :: u32)"
    by (simp only: length_replicate) simp
  have "replay_after 256 1 (replicate 256 (0 :: u32)) =
      Some (if length (replicate 256 (0 :: u32)) < unat (1 :: u32) * unat (256 :: u32)
            then Inr (replicate 256 0) else Inl OutOfBounds)"
    using L M by (rule replay_after_eq)
  then have "replay_after 256 1 (replicate 256 (0 :: u32)) = Some (Inl OutOfBounds)"
    by (simp only: length_replicate) simp
  moreover have "reset_after 256 1 (replicate 256 (0 :: u32)) =
      Some (if replicate 256 (0 :: u32) \<noteq> [] \<and>
               length (replicate 256 (0 :: u32)) mod unat (256 :: u32) \<noteq> 0
            then Inr (Array 1)
            else if length (replicate 256 (0 :: u32)) < unat (1 :: u32) * unat (256 :: u32)
            then Inl NullDereference else Inl OutOfBounds)"
    using L M by (rule reset_after_eq)
  then have "reset_after 256 1 (replicate 256 (0 :: u32)) = Some (Inl OutOfBounds)"
    by (simp only: length_replicate) simp
  ultimately show ?thesis
    by blast
qed

subsection \<open>C5: addresses and offsets\<close>

text \<open>
  C5. Let the mask be the low \<open>w\<close> bits, \<open>w \<le> 32\<close> (an offset is a 32-bit element). For
  every object address within the region (not below the base, word-aligned relative to
  it) whose word-distance from the base is at most the mask, \<open>cast_from_oop_addr\<close> returns
  an offset that equals the exact word-distance from the base, and \<open>cast_from_offset\<close>
  maps that offset back to the original address.
\<close>

theorem offset_roundtrip:
  assumes "offset_mask t = mask w" and "w \<le> 32" and "in_region t obj"
  shows "\<exists>offset. cast_from_oop_addr t obj = Inr offset \<and>
           ucast offset = pointer_delta obj (bottom t) \<and>
           unat offset * 8 = unat obj - unat (bottom t) \<and>
           cast_from_offset t offset = obj"
proof -
  let ?d = "pointer_delta obj (bottom t)"
  have "?d \<le> mask w"
    using assms by (simp add: in_region_def)
  then have "unat ?d < 2 ^ 32"
    using assms(2) by (rule unat_le_mask32)
  then have "ucast (ucast ?d :: u32) = ?d"
    by (rule ucast_ucast_small)
  then show ?thesis
    using cast_roundtrip [OF assms] by blast
qed

text \<open>The theorem for a region based at address 4096 with 16-bit offsets, at the object
  5 words above the base.\<close>

theorem offset_roundtrip_witness:
  "offset_mask (new_tracker 16 4 0 4096) = mask 16 \<and> (16 :: nat) \<le> 32 \<and>
   in_region (new_tracker 16 4 0 4096) 4136 \<and>
   cast_from_oop_addr (new_tracker 16 4 0 4096) 4136 = Inr 5 \<and>
   cast_from_offset (new_tracker 16 4 0 4096) 5 = 4136"
proof -
  let ?t = "new_tracker 16 4 0 4096"
  have m: "offset_mask ?t = mask 16"
    by (simp add: new_tracker_def)
  have w: "(16 :: nat) \<le> 32"
    by simp
  have d: "pointer_delta 4136 (bottom ?t) = 5"
    by (simp add: pointer_delta_def new_tracker_def HeapWordSize_def)
  have r: "in_region ?t 4136"
    by (simp add: in_region_def d) (simp add: new_tracker_def HeapWordSize_def mask_eq_exp_minus_1)
  from offset_roundtrip [OF m w r] obtain offset where
    a: "cast_from_oop_addr ?t 4136 = Inr offset"
    and b: "(ucast offset :: u64) = pointer_delta 4136 (bottom ?t)"
    and c: "cast_from_offset ?t offset = 4136"
    by blast
  have "cast_from_oop_addr ?t 4136 = Inr 5"
    by (simp add: cast_from_oop_addr_def Let_def d) (simp add: new_tracker_def mask_eq_exp_minus_1)
  then have "offset = 5"
    using a by simp
  then show ?thesis
    using a c m w r by simp
qed

subsection \<open>C8: an offset that does not fit the mask\<close>

text \<open>
  C8. \<open>cast_from_oop_addr\<close> of an object whose word-offset from the region base exceeds
  the mask stops at its assertion, and so does \<^verbatim>\<open>record\<close> of that object, which inserts
  nothing. Equivalently, when the mask is the low \<open>w\<close> bits: whenever
  \<open>cast_from_oop_addr\<close> returns an offset, the masking step has not changed the computed
  word-distance; and for \<open>w \<le> 32\<close> every \<^verbatim>\<open>record\<close> that completes has inserted exactly
  the word-distance, not narrowed either.
\<close>

theorem record_offset_overflow:
  "(offset_mask t < pointer_delta obj (bottom t) \<longrightarrow>
      cast_from_oop_addr t obj = Inl AssertionFailed \<and>
      record_obj t obj = Some (Inl AssertionFailed)) \<and>
   (offset_mask t = mask w \<longrightarrow>
      (\<forall>offset. cast_from_oop_addr t obj = Inr offset \<longrightarrow>
         pointer_delta obj (bottom t) AND offset_mask t = pointer_delta obj (bottom t))) \<and>
   (offset_mask t = mask w \<and> w \<le> 32 \<and> record_obj t obj = Some (Inr t') \<longrightarrow>
      (\<exists>offset. cast_from_oop_addr t obj = Inr offset \<and>
         ucast offset = pointer_delta obj (bottom t) \<and>
         add NODE_LENGTH offset (nodes_array t) = Some (Inr (nodes_array t'))))"
proof -
  let ?d = "pointer_delta obj (bottom t)"
  have fail: "cast_from_oop_addr t obj = Inl AssertionFailed \<and>
      record_obj t obj = Some (Inl AssertionFailed)" if "offset_mask t < ?d"
    using that by (simp add: cast_from_oop_addr_def record_obj_def Let_def not_le)
  have fits: "?d \<le> offset_mask t" if "cast_from_oop_addr t obj = Inr offset" for offset
    using that by (simp add: cast_from_oop_addr_def Let_def split: if_splits)
  have keep: "?d AND offset_mask t = ?d"
    if "offset_mask t = mask w" "cast_from_oop_addr t obj = Inr offset" for offset
    using fits [OF that(2)] that(1) by (simp add: masking_id)
  have exact: "\<exists>offset. cast_from_oop_addr t obj = Inr offset \<and> ucast offset = ?d \<and>
      add NODE_LENGTH offset (nodes_array t) = Some (Inr (nodes_array t'))"
    if m: "offset_mask t = mask w" and w: "w \<le> 32" and r: "record_obj t obj = Some (Inr t')"
  proof -
    from r obtain offset a where c: "cast_from_oop_addr t obj = Inr offset"
      and ad: "add NODE_LENGTH offset (nodes_array t) = Some (Inr a)"
      and t': "t' = t\<lparr>nodes_array := a\<rparr>"
      by (auto simp: record_obj_def split: sum.splits option.splits)
    have le: "?d \<le> mask w"
      using fits [OF c] m by simp
    have "offset = ucast (?d AND offset_mask t)"
      using c by (simp add: cast_from_oop_addr_def Let_def split: if_splits)
    then have "offset = ucast ?d"
      using keep [OF m c] by simp
    moreover have "ucast (ucast ?d :: u32) = ?d"
      using unat_le_mask32 [OF le w] by (rule ucast_ucast_small)
    ultimately show ?thesis
      using c ad t' by simp
  qed
  show ?thesis
    using fail keep exact by blast
qed

text \<open>The theorem for a region based at address 4096 with 16-bit offsets: the object
  \<open>2^16\<close> words above the base is refused, the object 5 words above it is recorded as 5.\<close>

theorem record_offset_overflow_witness:
  "offset_mask (new_tracker 16 4 0 4096) < pointer_delta 528384 (bottom (new_tracker 16 4 0 4096)) \<and>
   record_obj (new_tracker 16 4 0 4096) 528384 = Some (Inl AssertionFailed) \<and>
   offset_mask (new_tracker 16 4 0 4096) = mask 16 \<and> (16 :: nat) \<le> 32 \<and>
   cast_from_oop_addr (new_tracker 16 4 0 4096) 4136 = Inr 5 \<and>
   pointer_delta 4136 (bottom (new_tracker 16 4 0 4096)) AND offset_mask (new_tracker 16 4 0 4096) =
     pointer_delta 4136 (bottom (new_tracker 16 4 0 4096)) \<and>
   record_obj (new_tracker 16 4 0 4096) 4136 =
     Some (Inr (new_tracker 16 4 0 4096\<lparr>nodes_array := filled NODE_LENGTH 4 [5]\<rparr>)) \<and>
   add NODE_LENGTH 5 (nodes_array (new_tracker 16 4 0 4096)) =
     Some (Inr (filled NODE_LENGTH 4 [5]))"
proof -
  let ?t = "new_tracker 16 4 0 4096"
  have big: "offset_mask ?t < pointer_delta 528384 (bottom ?t)"
    by (simp add: new_tracker_def pointer_delta_def HeapWordSize_def mask_eq_exp_minus_1)
  have m: "offset_mask ?t = mask 16"
    by (simp add: new_tracker_def)
  have w: "(16 :: nat) \<le> 32"
    by simp
  have d: "pointer_delta 4136 (bottom ?t) = 5"
    by (simp add: pointer_delta_def new_tracker_def HeapWordSize_def)
  have c: "cast_from_oop_addr ?t 4136 = Inr 5"
    by (simp add: cast_from_oop_addr_def Let_def d) (simp add: new_tracker_def mask_eq_exp_minus_1)
  have r: "in_region ?t 4136"
    by (simp add: in_region_def d) (simp add: new_tracker_def HeapWordSize_def mask_eq_exp_minus_1)
  have na: "nodes_array ?t = filled NODE_LENGTH 4 []"
    by (simp add: new_tracker_def filled_Nil)
  have o: "offset_of ?t 4136 = 5"
    by (simp add: offset_of_def d)
  have "record_obj ?t 4136 =
      Some (Inr (?t\<lparr>nodes_array := filled NODE_LENGTH 4 ([] @ [offset_of ?t 4136])\<rparr>))"
    using m w r na by (rule record_obj_filled) simp
  then have rec: "record_obj ?t 4136 = Some (Inr (?t\<lparr>nodes_array := filled NODE_LENGTH 4 [5]\<rparr>))"
    by (simp only: o append_Nil)
  note at_big = record_offset_overflow [of ?t 528384 16]
  note at_small = record_offset_overflow
    [of ?t 4136 16 "?t\<lparr>nodes_array := filled NODE_LENGTH 4 [5]\<rparr>"]
  have f: "record_obj ?t 528384 = Some (Inl AssertionFailed)"
    using at_big big by blast
  have k: "pointer_delta 4136 (bottom ?t) AND offset_mask ?t = pointer_delta 4136 (bottom ?t)"
    using at_small m c by blast
  have "\<exists>offset. cast_from_oop_addr ?t 4136 = Inr offset \<and>
      ucast offset = pointer_delta 4136 (bottom ?t) \<and>
      add NODE_LENGTH offset (nodes_array ?t) =
        Some (Inr (nodes_array (?t\<lparr>nodes_array := filled NODE_LENGTH 4 [5]\<rparr>)))"
    using at_small m w rec by blast
  then have ad: "add NODE_LENGTH 5 (nodes_array ?t) = Some (Inr (filled NODE_LENGTH 4 [5]))"
    using c by auto
  show ?thesis
    using big f m w c k rec ad by blast
qed

subsection \<open>C1: the replay of the tracker\<close>

text \<open>
  Below the capacity of the log the replay is the one the specification describes. Let
  the tracker be fresh (its log is a newly constructed one), with the mask the low
  \<open>w \<le> 32\<close> bits, and let \<open>objs\<close> be any finite collection of recorded addresses, with
  repetitions, all lying in the tracker's region and fewer than the log holds (max
  segments times 256). Recording them all completes, and a single call to \<^verbatim>\<open>iterate\<close>
  afterwards invokes the visitor on a list of addresses that is strictly ascending, has no
  duplicates, and has exactly the recorded addresses as its members: once per distinct
  recorded object, in ascending address order. In particular an address recorded twice is
  visited once. This holds for every visitor; \<open>visited\<close> is what a visitor that lists its
  arguments returns.
\<close>

theorem iterate_visits_once_ascending:
  assumes "offset_mask t = mask w" and "w \<le> 32"
    and "nodes_array t = Array max_nodes"
    and "\<forall>obj\<in>set objs. in_region t obj"
    and "length objs < unat max_nodes * unat NODE_LENGTH"
  shows "\<exists>t' visited.
           records objs t = Some (Inr t') \<and>
           iterate t' (\<lambda>obj acc. acc @ [obj]) [] = Inr visited \<and>
           sorted_wrt (<) visited \<and> distinct visited \<and> set visited = set objs \<and>
           (\<forall>(do_object :: u64 \<Rightarrow> 'c \<Rightarrow> 'c) closure.
              iterate t' do_object closure = Inr (fold do_object visited closure))"
proof -
  let ?vs = "sorted_list_of_set (set objs)"
  let ?t' = "t\<lparr>nodes_array := filled NODE_LENGTH max_nodes (map (offset_of t) objs)\<rparr>"
  have run: "records objs t = Some (Inr ?t')"
    using assms(1,2,4,3,5) by (rule records_fresh)
  have it: "iterate ?t' do_object closure = Inr (fold do_object ?vs closure)"
    for do_object :: "u64 \<Rightarrow> 'c \<Rightarrow> 'c" and closure
    using assms(1,2,4,5) by (rule iterate_recorded)
  have "iterate ?t' (\<lambda>obj acc. acc @ [obj]) [] = Inr (fold (\<lambda>obj acc. acc @ [obj]) ?vs [])"
    using assms(1,2,4,5) by (rule iterate_recorded)
  then have tr: "iterate ?t' (\<lambda>obj acc. acc @ [obj]) [] = Inr ?vs"
    by (simp add: fold_snoc)
  have "sorted_wrt (<) ?vs" "distinct ?vs" "set ?vs = set objs"
    by (simp_all add: strict_sorted_iff)
  then show ?thesis
    using run it tr by blast
qed

text \<open>The theorem for a region based at address 4096 with 16-bit offsets: the objects at
  the word offsets 5, 5000, 12 and 5 again are visited as offsets 5, 12, 5000, once
  each.\<close>

theorem iterate_visits_once_ascending_witness:
  "offset_mask (new_tracker 16 4 0 4096) = mask 16 \<and> (16 :: nat) \<le> 32 \<and>
   nodes_array (new_tracker 16 4 0 4096) = Array 4 \<and>
   list_all (in_region (new_tracker 16 4 0 4096)) [4136, 44096, 4192, 4136] \<and>
   length [4136, 44096, 4192, 4136 :: u64] < unat (4 :: u32) * unat NODE_LENGTH \<and>
   (\<exists>t'. records [4136, 44096, 4192, 4136] (new_tracker 16 4 0 4096) = Some (Inr t') \<and>
         iterate t' (\<lambda>obj acc. acc @ [obj]) [] = Inr [4136, 4192, 44096])"
proof -
  let ?t = "new_tracker 16 4 0 4096"
  let ?objs = "[4136, 44096, 4192, 4136 :: u64]"
  have m: "offset_mask ?t = mask 16" and na: "nodes_array ?t = Array 4"
    by (simp_all add: new_tracker_def)
  have w: "(16 :: nat) \<le> 32"
    by simp
  have r: "list_all (in_region ?t) ?objs"
    by (simp add: in_region_def pointer_delta_def new_tracker_def HeapWordSize_def
        mask_eq_exp_minus_1 word_le_nat_alt)
  then have r': "\<forall>obj\<in>set ?objs. in_region ?t obj"
    by (simp only: list_all_iff)
  have c: "length ?objs < unat (4 :: u32) * unat NODE_LENGTH"
    by (simp add: unat_NODE_LENGTH)
  from iterate_visits_once_ascending [OF m w na r' c, where 'c = unit] obtain t' visited where
    run: "records ?objs ?t = Some (Inr t')"
    and it: "iterate t' (\<lambda>obj acc. acc @ [obj]) [] = Inr visited"
    and s: "sorted_wrt (<) visited" "distinct visited" "set visited = set ?objs"
    by blast
  have "sorted visited"
    using s(1) by (simp add: strict_sorted_iff)
  then have "visited = sorted_list_of_set (set ?objs)"
    using s(2,3) by (metis sorted_list_of_set.idem_if_sorted_distinct)
  also have "\<dots> = [4136, 4192, 44096]"
    by code_simp
  finally show ?thesis
    using m w na r c run it by blast
qed

section \<open>Concurrent insertion: results\<close>

text \<open>
  Threads that insert, between them, no more elements than the table has slots for, run
  interleaved in any order until every call has returned. The log is then the one that
  sequential insertion of the same elements, in the order of their reservations, builds:
  the count is their number (modulo \<open>2^32\<close>), and below the capacity a replay visits
  exactly these elements.
\<close>

theorem concurrent_adds_complete:
  assumes L: "0 < unat LEN" and cap: "length (concat todos) \<le> unat max_nodes * unat LEN"
    and r: "(par_step LEN)\<^sup>*\<^sup>* (spawn todos, new_Shared max_nodes) (ts, s :: 'e Shared)"
    and fin: "finished ts"
  shows "\<exists>ys. mset ys = mset (concat todos) \<and>
           adds LEN ys (Array max_nodes) = Some (Inr (view s)) \<and>
           unat (objs_num (view s)) = length (concat todos) mod 2 ^ 32 \<and>
           (length (concat todos) < unat max_nodes * unat LEN \<longrightarrow>
              (\<forall>(visit :: 'e \<Rightarrow> 'v \<Rightarrow> 'v) v.
                 iterate_elements LEN visit (view s) v = Inr (fold visit ys v)))"
proof -
  obtain ys where mx: "sh_max_nodes_length s = max_nodes"
    and inv: "log_inv LEN (mset (concat todos)) ts s ys"
    using reachable_inv [OF L cap r] by blast
  have f: "mset ys = mset (concat todos)" "view s = filled LEN max_nodes ys"
    using final_state [OF inv fin] mx by simp_all
  have len: "length ys = length (concat todos)"
    using f(1) by (metis size_mset)
  have a: "adds LEN ys (Array max_nodes) = Some (Inr (view s))"
    using adds_Array [OF L, of ys max_nodes] cap len f(2) by simp
  have n: "unat (objs_num (view s)) = length (concat todos) mod 2 ^ 32"
    by (simp add: f(2) objs_num_def filled_def Let_def len unat_of_nat)
  show ?thesis
  proof (intro exI conjI impI allI)
    show "mset ys = mset (concat todos)" by (rule f(1))
    show "adds LEN ys (Array max_nodes) = Some (Inr (view s))" by (rule a)
    show "unat (objs_num (view s)) = length (concat todos) mod 2 ^ 32" by (rule n)
    show "iterate_elements LEN visit (view s) v = Inr (fold visit ys v)"
      if "length (concat todos) < unat max_nodes * unat LEN" for visit :: "'e \<Rightarrow> 'v \<Rightarrow> 'v" and v
      using iterate_elements_filled [OF L, of ys max_nodes visit v] that len f(2) by simp
  qed
qed

text \<open>In such a run no thread fails: no assertion of \<^verbatim>\<open>next\<close> or \<^verbatim>\<open>elem_index\<close> fires,
  and no access leaves the table or a node.\<close>

theorem concurrent_adds_safe:
  assumes L: "0 < unat LEN" and cap: "length (concat todos) \<le> unat max_nodes * unat LEN"
    and r: "(par_step LEN)\<^sup>*\<^sup>* (spawn todos, new_Shared max_nodes) (ts, s)"
  shows "\<forall>t\<in>set ts. \<forall>e. fst t \<noteq> Failed e"
proof -
  obtain ys where inv: "log_inv LEN (mset (concat todos)) ts s ys"
    using reachable_inv [OF L cap r] by blast
  then have th: "inv_threads LEN ts s ys"
    by (simp add: log_inv_def)
  show ?thesis
  proof (intro ballI allI notI)
    fix t e assume "t \<in> set ts" and "fst t = Failed e"
    then obtain i where "i < length ts" "fst (ts ! i) = Failed e"
      by (metis in_set_conv_nth)
    then show False
      using th by (auto simp: inv_threads_def)
  qed
qed

text \<open>In such a run, as long as a call has not returned, some thread has a step that
  moves it: the threads that wait for a segment wait for a thread that is about to store
  it.\<close>

theorem concurrent_adds_deadlock_free:
  assumes L: "0 < unat LEN" and cap: "length (concat todos) \<le> unat max_nodes * unat LEN"
    and r: "(par_step LEN)\<^sup>*\<^sup>* (spawn todos, new_Shared max_nodes) (ts, s)"
    and nf: "\<not> finished ts"
  shows "\<exists>i<length ts. \<exists>t' s'. thread_step LEN (ts ! i) s = Some (t', s') \<and> t' \<noteq> ts ! i"
proof -
  obtain ys where inv: "log_inv LEN (mset (concat todos)) ts s ys"
    using reachable_inv [OF L cap r] by blast
  then have th: "inv_threads LEN ts s ys" and tb: "inv_table LEN ts s ys"
    by (simp_all add: log_inv_def)
  obtain i where i: "i < length ts" and ni: "ts ! i \<noteq> (Idle, [])"
    using nf by (auto simp: finished_def list_all_length)
  obtain pc td where ti: "ts ! i = (pc, td)"
    by (cases "ts ! i")
  have tinv: "thread_inv LEN ys s pc"
    using th i ti by (auto simp: inv_threads_def)
  show ?thesis
  proof (cases "\<exists>e hi lo. pc = Waiting e hi lo \<and> sh_load s (unat hi) = Inr None")
    case False
    have "\<exists>t' s'. thread_step LEN (pc, td) s = Some (t', s') \<and> t' \<noteq> (pc, td)"
    proof (rule productive)
      show "(pc, td) \<noteq> (Idle, [])" using ni ti by simp
      show "pc \<noteq> Failed e" for e using tinv by auto
      show "sh_load s (unat hi) \<noteq> Inr None" if "pc = Waiting e hi lo" for e hi lo
        using False that by simp
    qed
    then show ?thesis
      using i ti by auto
  next
    case True
    then obtain e hi lo where pc: "pc = Waiting e hi lo" and ld: "sh_load s (unat hi) = Inr None"
      by blast
    have own: "owns LEN ys (unat hi) (unat lo) e"
      using tinv pc by simp
    have k: "held LEN (ts ! i) = Some (unat hi * unat LEN + unat lo)"
      by (simp add: ti pc)
    note f = owner_facts [OF inv i own k]
    have null: "sh_nodes s ! unat hi = None"
      using ld f(1,2) by (simp add: sh_load_def)
    have "\<not> length ys \<le> unat hi * unat LEN"
      using own by (simp add: owns_def)
    then have "holder LEN reserved ts (unat hi * unat LEN)"
      using tb f(1) null by (simp add: inv_table_def)
    then obtain j where j: "j < length ts" and rj: "reserved (ts ! j)"
      by (auto simp: holder_def)
    obtain pc' td' where tj: "ts ! j = (pc', td')"
      by (cases "ts ! j")
    have "\<exists>t' s'. thread_step LEN (pc', td') s = Some (t', s') \<and> t' \<noteq> (pc', td')"
    proof (rule productive)
      show "(pc', td') \<noteq> (Idle, [])" using rj tj by (auto simp: reserved_def)
      show "pc' \<noteq> Failed e" for e using rj tj by (auto simp: reserved_def)
      show "sh_load s (unat hi) \<noteq> Inr None" if "pc' = Waiting e hi lo" for e hi lo
        using rj tj that by (simp add: reserved_def)
    qed
    then show ?thesis
      using j tj by auto
  qed
qed

text \<open>A step changes an entry of the table only from \<^verbatim>\<open>NULL\<close> to a node, and only
  as the step of a thread that has reserved slot 0 of that segment.\<close>

theorem segment_published_once:
  assumes L: "0 < unat LEN" and cap: "length (concat todos) \<le> unat max_nodes * unat LEN"
    and r: "(par_step LEN)\<^sup>*\<^sup>* (spawn todos, new_Shared max_nodes) (ts, s)"
    and st: "par_step LEN (ts, s) (ts', s')"
  shows "\<forall>i<unat max_nodes. sh_nodes s' ! i \<noteq> sh_nodes s ! i \<longrightarrow>
           sh_nodes s ! i = None \<and> sh_nodes s' ! i \<noteq> None \<and>
           (\<exists>j<length ts. \<exists>e pos td.
              ts ! j = (Reserved e pos, td) \<and> unat (node_index pos) = i \<and> low pos = 0)"
proof (intro allI impI)
  fix i assume i: "i < unat max_nodes" and ch: "sh_nodes s' ! i \<noteq> sh_nodes s ! i"
  obtain ys where mx: "sh_max_nodes_length s = max_nodes"
    and inv: "log_inv LEN (mset (concat todos)) ts s ys"
    using reachable_inv [OF L cap r] by blast
  have th: "inv_threads LEN ts s ys" and tb: "inv_table LEN ts s ys"
    using inv by (simp_all add: log_inv_def)
  from st obtain j t' where j: "j < length ts" and run: "thread_step LEN (ts ! j) s = Some (t', s')"
    by (cases rule: par_step.cases) auto
  obtain pc td where tj: "ts ! j = (pc, td)"
    by (cases "ts ! j")
  have "sh_nodes s' \<noteq> sh_nodes s"
    using ch by auto
  then obtain e pos where pc: "pc = Reserved e pos" and ei: "elem_index LEN pos = Inr 0"
    and n': "sh_nodes s' = (sh_nodes s)[unat (node_index pos) := Some (length (sh_heap s))]"
    using nodes_change [of LEN pc td s t' s'] run tj by auto
  have lo: "low pos = 0"
    using ei by (rule elem_index_zero)
  have hi: "unat (node_index pos) = i"
    using ch n' by (metis nth_list_update_neq)
  have own: "owns LEN ys (unat (node_index pos)) (unat (low pos)) e"
    using th j tj pc by (auto simp: inv_threads_def)
  have k: "held LEN (ts ! j) = Some (unat (node_index pos) * unat LEN + unat (low pos))"
    by (simp add: tj pc)
  note f = owner_facts [OF inv j own k]
  have "holder LEN reserved ts (i * unat LEN)"
    using f(5) [of reserved] hi lo by (simp add: tj pc)
  then have null: "sh_nodes s ! i = None"
    using tb f(1) hi by (simp add: inv_table_def)
  have "sh_nodes s' ! i \<noteq> None"
    using n' f(1) hi by simp
  then show "sh_nodes s ! i = None \<and> sh_nodes s' ! i \<noteq> None \<and>
           (\<exists>j<length ts. \<exists>e pos td.
              ts ! j = (Reserved e pos, td) \<and> unat (node_index pos) = i \<and> low pos = 0)"
    using null j tj pc hi lo by blast
qed

text \<open>A schedule of two threads for a log of two 2-element segments: thread 1 reserves
  slot 1 of segment 0 and waits until thread 0, which has reserved slot 0, has stored the
  segment.\<close>

lemma schedule_example:
  "run 2 [0,0,0, 1,1,1,1,1, 0, 1,1,1, 0,0,0, 0,0,0,0,0,0,0] (spawn [[1,2],[3::nat]], new_Shared 2) =
     Some ([(Idle, []), (Idle, [])],
       \<lparr>sh_max_nodes_length = 2, sh_cur_pos = 4294967297, sh_nodes = [Some 0, Some 1],
        sh_heap = [[Some 1, Some 3], [Some 2, None]], sh_elements_num = 3\<rparr>)"
  by code_simp

lemma concurrent_adds_example:
  "\<exists>ys. mset ys = mset [1, 2, 3 :: nat] \<and>
     adds 2 ys (Array 2) =
       Some (Inr (view \<lparr>sh_max_nodes_length = 2, sh_cur_pos = 4294967297,
                          sh_nodes = [Some 0, Some 1],
                          sh_heap = [[Some 1, Some 3], [Some 2, None]], sh_elements_num = 3\<rparr>))"
  using concurrent_adds_complete [OF _ _ run_par_steps [OF schedule_example], where 'v = unit]
  by (simp add: finished_def) blast


end
